theory Spec2Isabelle
  imports Main "HOL-Library.Sublist" "HOL-Library.Multiset" "HOL-Library.AList"
begin

section \<open>The regular expressions of the markup redactor\<close>

text \<open>
  Every regular expression that \<^verbatim>\<open>anonymize_text\<close> (anonymize\_doc.py) and
  \<^verbatim>\<open>_anonymize_text\<close> (export\_saymore.py) hand to \<^verbatim>\<open>re.sub\<close> is a sequence of
  literal pieces and of lazy wildcards \<^verbatim>\<open>(.*?)\<close>.  The groups are never read (the
  replacement is a constant string), so a pattern is a list of items.  Python's \<^verbatim>\<open>.\<close>
  matches every character but the line feed: no flag is given to \<^verbatim>\<open>re.sub\<close>.
\<close>

datatype item = Lit string | LazyAny

definition newline :: char where
  "newline = CHR 0x0A"

text \<open>
  \<open>match_here p s\<close> is the backtracking matcher anchored at the head of \<open>s\<close>: the
  rest of the string after the first match that the search order of \<^verbatim>\<open>re\<close> finds, or
  \<open>None\<close>.  A lazy wildcard first tries to consume nothing and takes one more
  character (never a line feed) each time the rest of the pattern fails.
\<close>

fun match_here :: "item list \<Rightarrow> string \<Rightarrow> string option" where
  "match_here [] s = Some s"
| "match_here (Lit l # ps) s =
     (if prefix l s then match_here ps (drop (length l) s) else None)"
| "match_here (LazyAny # ps) [] = match_here ps []"
| "match_here (LazyAny # ps) (c # cs) =
     (case match_here ps (c # cs) of
        Some r \<Rightarrow> Some r
      | None \<Rightarrow> if c = newline then None else match_here (LazyAny # ps) cs)"

lemma match_here_length: "match_here p s = Some r \<Longrightarrow> length r \<le> length s"
proof (induction p s rule: match_here.induct)
  case (1 s)
  then show ?case by simp
next
  case (2 l ps s)
  then show ?case by (fastforce split: if_splits)
next
  case (3 ps)
  then show ?case by simp
next
  case (4 ps c cs)
  then show ?case by (fastforce split: option.splits if_splits)
qed

text \<open>
  \<open>sub_re p repl s\<close> is \<^verbatim>\<open>re.sub(p, repl, s)\<close> for a constant replacement: the
  string is scanned from the left, a match at the current position is replaced and the
  scan goes on after it, and a character where nothing matches is copied.  A pattern
  that matched the empty string would be replaced and the scan would move one character
  on; none of the four patterns of the source can (each starts with a non-empty
  literal).
\<close>

function sub_re :: "item list \<Rightarrow> string \<Rightarrow> string \<Rightarrow> string" where
  "sub_re p repl s =
     (case match_here p s of
        Some r \<Rightarrow>
          (if length r < length s then repl @ sub_re p repl r
           else (case s of [] \<Rightarrow> repl | c # cs \<Rightarrow> repl @ c # sub_re p repl cs))
      | None \<Rightarrow> (case s of [] \<Rightarrow> [] | c # cs \<Rightarrow> c # sub_re p repl cs))"
  by pat_completeness auto
termination
  by (relation "measure (\<lambda>(p, repl, s). length s)") auto

declare sub_re.simps [simp del]

text \<open>The four patterns, in the order in which the source applies them.\<close>

definition name_anon_re :: "item list" where
  \<open>name_anon_re = [Lit ''[anon type="name"]'', LazyAny, Lit ''[/anon]'']\<close>

definition name_tag_re :: "item list" where
  \<open>name_tag_re = [Lit ''[name]'', LazyAny, Lit ''[/name]'']\<close>

definition any_anon_re :: "item list" where
  \<open>any_anon_re = [Lit ''[anon type="'', LazyAny, Lit ''"]'', LazyAny, Lit ''[/anon]'']\<close>

definition sensitive_tag_re :: "item list" where
  \<open>sensitive_tag_re = [Lit ''[sensitive]'', LazyAny, Lit ''[/sensitive]'']\<close>

definition anonymize_text :: "string \<Rightarrow> string" where
  "anonymize_text s =
     (let s = sub_re name_anon_re ''(NAME)'' s;
          s = sub_re name_tag_re ''(NAME)'' s;
          s = sub_re any_anon_re ''(SENSITIVE)'' s;
          s = sub_re sensitive_tag_re ''(SENSITIVE)'' s
      in s)"

text \<open>
  \<^verbatim>\<open>anonymize\<close> of export\_saymore.py: the redacted text and whether it differs from
  the input.
\<close>

definition anonymize :: "string \<Rightarrow> string \<times> bool" where
  "anonymize s = (let anon_s = anonymize_text s in (anon_s, anon_s \<noteq> s))"

text \<open>
  \<^verbatim>\<open>anonymous_text_re.search\<close>: the pre-check pattern
  \<^verbatim>\<open>\[\/?(anon|name|sensitive)\<close> searched at every position of the string.
\<close>

definition precheck_here :: "string \<Rightarrow> bool" where
  "precheck_here s =
     (case s of
        [] \<Rightarrow> False
      | c # cs \<Rightarrow>
          c = CHR ''['' \<and>
          (let t = (case cs of d # ds \<Rightarrow> if d = CHR ''/'' then ds else cs | [] \<Rightarrow> cs)
           in prefix ''anon'' t \<or> prefix ''name'' t \<or> prefix ''sensitive'' t))"

fun anonymous_text_re_search :: "string \<Rightarrow> bool" where
  "anonymous_text_re_search [] = False"
| "anonymous_text_re_search (c # cs) =
     (precheck_here (c # cs) \<or> anonymous_text_re_search cs)"

section \<open>Decimal formatting\<close>

text \<open>
  \<^verbatim>\<open>'%d' % n\<close> for a counter that starts at 1 and only grows, and the index that
  \<^verbatim>\<open>${i}\<close> prints in the template.
\<close>

definition digit_char :: "nat \<Rightarrow> char" where
  "digit_char d = ''0123456789'' ! d"

fun show_nat :: "nat \<Rightarrow> string" where
  "show_nat n = (if n < 10 then [digit_char n] else show_nat (n div 10) @ [digit_char (n mod 10)])"

declare show_nat.simps [simp del]

text \<open>
  \<^verbatim>\<open>'%.3f' % (ms / 1000.0)\<close> for an integer number of milliseconds.  The quotient is
  a double; for \<open>\<bar>ms\<bar> < 2 ^ 52\<close> its error is below half a thousandth, so the three
  printed decimals are exactly the last three digits of \<open>ms\<close>, which is what this
  definition writes (with the sign first, as C's \<^verbatim>\<open>%f\<close> does).
\<close>

definition fmt_3f_ms :: "int \<Rightarrow> string" where
  "fmt_3f_ms ms =
     (let n = nat \<bar>ms\<bar>; f = n mod 1000 in
      (if ms < 0 then ''-'' else []) @ show_nat (n div 1000) @ ''.'' @
      [digit_char (f div 100), digit_char (f div 10 mod 10), digit_char (f mod 10)])"

section \<open>The filter program compiler\<close>










section \<open>The review clips\<close>

definition REVIEW_CONTEXT :: int where
  "REVIEW_CONTEXT = 1000"

text \<open>
  \<^verbatim>\<open>get_duration_ms\<close> runs the probe inside \<^verbatim>\<open>try\<close>; both handlers only print, the
  second one catches every exception.  The outcome of the \<^verbatim>\<open>try\<close> block is either
  an exception somewhere in it (the process failed, a pattern did not match the probe's
  output, the sample rate was zero) or the duration it computed.
\<close>

datatype probe = Raised | Measured int

fun get_duration_ms :: "probe \<Rightarrow> int" where
  "get_duration_ms Raised = -1"
| "get_duration_ms (Measured clip_duration_ms) = clip_duration_ms"

text \<open>
  The body of the inner loop of \<^verbatim>\<open>review_anonymization\<close>: the bounds handed to
  \<^verbatim>\<open>create_clip\<close> for one segment of one media file.
\<close>

definition review_window :: "int \<Rightarrow> int \<times> int \<times> string \<Rightarrow> int \<times> int" where
  "review_window media_dur_ms seg =
     (case seg of (start_ms, end_ms, _) \<Rightarrow>
        (max (start_ms - REVIEW_CONTEXT) 0, min (end_ms + REVIEW_CONTEXT) media_dur_ms))"

definition review_anonymization :: "(int \<times> int \<times> string) list \<Rightarrow> probe \<Rightarrow> (int \<times> int) list" where
  "review_anonymization segments_to_anonymize p =
     (let media_dur_ms = get_duration_ms p
      in map (review_window media_dur_ms) segments_to_anonymize)"

section \<open>Properties of the filter program compiler\<close>

text \<open>Python's \<^verbatim>\<open>pat in s\<close>.\<close>

fun str_contains :: "string \<Rightarrow> string \<Rightarrow> bool" where
  "str_contains [] pat = (pat = [])"
| "str_contains (c # cs) pat = (prefix pat (c # cs) \<or> str_contains cs pat)"

lemma digit_char_in: "d < 10 \<Longrightarrow> digit_char d \<in> set ''0123456789''"
  unfolding digit_char_def by (rule nth_mem) simp

lemma set_show_nat: "set (show_nat n) \<subseteq> set ''0123456789''"
proof (induction n rule: show_nat.induct)
  case (1 n)
  show ?case
  proof (cases "n < 10")
    case True
    then show ?thesis using digit_char_in [of n] by (subst show_nat.simps) simp
  next
    case False
    have "digit_char (n mod 10) \<in> set ''0123456789''" by (rule digit_char_in) simp
    with False 1 show ?thesis by (subst show_nat.simps) simp
  qed
qed

lemma fmt_3f_ms_chars:
  assumes "c \<notin> set ''0123456789''" "c \<noteq> CHR ''-''" "c \<noteq> CHR ''.''"
  shows "c \<notin> set (fmt_3f_ms ms)"
proof -
  have d: "\<And>k. k < 10 \<Longrightarrow> digit_char k \<noteq> c"
    using digit_char_in assms(1) by blast
  have s: "c \<notin> set (show_nat (nat \<bar>ms\<bar> div 1000))"
    using set_show_nat assms(1) by blast
  have "nat \<bar>ms\<bar> mod 1000 div 100 < 10" by (simp add: less_mult_imp_div_less)
  then have "digit_char (nat \<bar>ms\<bar> mod 1000 div 100) \<noteq> c"
    "digit_char (nat \<bar>ms\<bar> mod 1000 div 10 mod 10) \<noteq> c"
    "digit_char (nat \<bar>ms\<bar> mod 1000 mod 10) \<noteq> c"
    using d by simp_all
  with s assms(2,3) show ?thesis
    unfolding fmt_3f_ms_def Let_def by auto
qed


lemma fmt_no_letter [simp]:
  "CHR ''e'' \<notin> set (fmt_3f_ms ms)" "CHR ''b'' \<notin> set (fmt_3f_ms ms)" "CHR ''v'' \<notin> set (fmt_3f_ms ms)"
  by (rule fmt_3f_ms_chars; simp)+
















section \<open>The timeline merger\<close>

datatype py_error = KeyError | ValueError | IndexError

text \<open>
  A \<^verbatim>\<open>pydub.AudioSegment\<close> is modelled at the resolution at which the source reads
  it: one frame per millisecond.  \<^verbatim>\<open>len(clip)\<close> is \<open>length clip\<close>, \<^verbatim>\<open>+\<close> is
  \<open>@\<close>, \<^verbatim>\<open>AudioSegment.empty()\<close> is \<open>[]\<close>, and a segment is true in a condition
  when its length is not zero.
\<close>

type_synonym audio = "int list"

definition silent :: "nat \<Rightarrow> audio" where
  "silent duration = replicate duration 0"

text \<open>
  What one turn of the loop over the sorted annotations of the transcription tier
  reads: the annotation itself, the values that the two calls of
  \<^verbatim>\<open>get_ref_annotation_at_time(...)[0]\<close> find at its midpoint (\<open>None\<close> when the
  list is empty and the subscript raises), the slice
  \<^verbatim>\<open>src_audio[src_start_ms:src_end_ms]\<close>, and the two oral annotation files of the
  segment, loaded, when they exist.
\<close>

record utterance =
  src_start_ms :: int
  src_end_ms :: int
  src_text :: string
  trans_lookup :: "string option"
  source_lookup :: "string option"
  src_clip :: audio
  careful_wav :: "audio option"
  translation_wav :: "audio option"

text \<open>
  The keys \<^verbatim>\<open>audio_X_ts1\<close>, \<^verbatim>\<open>audio_X_ts1id\<close>, \<^verbatim>\<open>audio_X_ts2\<close>,
  \<^verbatim>\<open>audio_X_ts2id\<close> and \<^verbatim>\<open>audio_X_aid\<close> that the loop stores for a clip.
\<close>

record slot =
  ts1 :: int
  ts1id :: string
  ts2 :: int
  ts2id :: string
  aid :: string

text \<open>
  The dictionary \<^verbatim>\<open>annotation\<close>.  The keys of the repetition and of the translation
  are set together with the clip, so each is one optional pair.
\<close>

record oa_annotation =
  a_orig :: string
  a_rep :: string
  a_trans :: string
  a_source :: string
  orig_anonymized :: bool
  rep_anonymized :: bool
  trans_anonymized :: bool
  audio_orig :: audio
  audio_orig_slot :: slot
  audio_rep :: "(audio \<times> slot) option"
  audio_trans :: "(audio \<times> slot) option"

record merge_state =
  annotations :: "oa_annotation list"
  offset :: int
  annotation_id :: nat
  timeslot_id :: nat

definition merge_init :: merge_state where
  "merge_init = \<lparr>annotations = [], offset = 0, annotation_id = 1, timeslot_id = 1\<rparr>"

text \<open>\<^verbatim>\<open>s.split(sep)\<close> for a separator that is not empty.\<close>

fun split_acc :: "string \<Rightarrow> string \<Rightarrow> string \<Rightarrow> string list" where
  "split_acc sep acc [] = [rev acc]"
| "split_acc sep acc (c # cs) =
     (if prefix sep (c # cs) then rev acc # split_acc sep [] (drop (length sep - 1) cs)
      else split_acc sep (c # acc) cs)"

definition split_str :: "string \<Rightarrow> string \<Rightarrow> string list" where
  "split_str sep s = split_acc sep [] s"

text \<open>
  \<^verbatim>\<open>annotation['orig'], annotation['rep'] = text.split(' || ')\<close>: the assignment raises
  \<^verbatim>\<open>ValueError\<close> unless the list has two elements.
\<close>

definition split_orig_rep :: "string \<Rightarrow> py_error + string \<times> string" where
  "split_orig_rep t =
     (if str_contains t '' || '' then
        (case split_str '' || '' t of [x, y] \<Rightarrow> Inr (x, y) | _ \<Rightarrow> Inl ValueError)
      else Inr (t, []))"

definition ts_name :: "nat \<Rightarrow> string" where
  "ts_name n = ''ts'' @ show_nat n"

definition a_name :: "nat \<Rightarrow> string" where
  "a_name n = ''a'' @ show_nat n"

text \<open>
  The bookkeeping that the loop repeats for each clip it places: the slot of a clip of
  the given duration, and the counters after it.
\<close>

definition place :: "merge_state \<Rightarrow> int \<Rightarrow> slot \<times> merge_state" where
  "place st dur =
     (\<lparr>ts1 = offset st, ts1id = ts_name (timeslot_id st),
       ts2 = offset st + dur, ts2id = ts_name (timeslot_id st + 1),
       aid = a_name (annotation_id st)\<rparr>,
      st\<lparr>offset := offset st + dur, annotation_id := annotation_id st + 1,
         timeslot_id := timeslot_id st + 2\<rparr>)"

definition place_file :: "merge_state \<Rightarrow> audio option \<Rightarrow> (audio \<times> slot) option \<times> merge_state" where
  "place_file st wav =
     (case wav of
        None \<Rightarrow> (None, st)
      | Some clip \<Rightarrow> (case place st (int (length clip)) of (sl, st') \<Rightarrow> (Some (clip, sl), st')))"

text \<open>
  \<^verbatim>\<open>if annotation['rep-anonymized'] and annotation['audio_rep']\<close>: the clip is replaced
  by silence of its own duration.
\<close>

definition silence_if :: "bool \<Rightarrow> (audio \<times> slot) option \<Rightarrow> (audio \<times> slot) option" where
  "silence_if anonymized part =
     (case part of
        None \<Rightarrow> None
      | Some (clip, sl) \<Rightarrow>
          if anonymized \<and> clip \<noteq> [] then Some (silent (length clip), sl) else Some (clip, sl))"

text \<open>One turn of the loop; \<open>anon\<close> is \<^verbatim>\<open>args.anonymize\<close>.\<close>

definition merge_utterance :: "bool \<Rightarrow> merge_state \<Rightarrow> utterance \<Rightarrow> py_error + merge_state" where
  "merge_utterance anon st u =
     (if src_text u = ''%ignore%'' then Inr st
      else
        case split_orig_rep (src_text u) of
          Inl e \<Rightarrow> Inl e
        | Inr (orig0, rep0) \<Rightarrow>
            (case trans_lookup u of
               None \<Rightarrow> Inl IndexError
             | Some trans0 \<Rightarrow>
                 (case source_lookup u of
                    None \<Rightarrow> Inl IndexError
                  | Some source0 \<Rightarrow>
                      (let (orig1, orig_an) = (if anon then anonymize orig0 else (orig0, False));
                           (rep1, rep_an) = (if anon then anonymize rep0 else (rep0, False));
                           (trans1, trans_an) = (if anon then anonymize trans0 else (trans0, False));
                           (orig_slot, st1) = place st (src_end_ms u - src_start_ms u);
                           (rep_part, st2) = place_file st1 (careful_wav u);
                           (trans_part, st3) = place_file st2 (translation_wav u);
                           a = \<lparr>a_orig = orig1, a_rep = rep1, a_trans = trans1, a_source = source0,
                                orig_anonymized = orig_an, rep_anonymized = rep_an,
                                trans_anonymized = trans_an,
                                audio_orig =
                                  (if anon \<and> orig_an then silent (length (src_clip u))
                                   else src_clip u),
                                audio_orig_slot = orig_slot,
                                audio_rep = (if anon then silence_if rep_an rep_part else rep_part),
                                audio_trans =
                                  (if anon then silence_if trans_an trans_part else trans_part)\<rparr>
                       in Inr (st3\<lparr>annotations := annotations st3 @ [a]\<rparr>)))))"

fun merge_loop :: "bool \<Rightarrow> merge_state \<Rightarrow> utterance list \<Rightarrow> py_error + merge_state" where
  "merge_loop anon st [] = Inr st"
| "merge_loop anon st (u # us) =
     (case merge_utterance anon st u of
        Inl e \<Rightarrow> Inl e
      | Inr st' \<Rightarrow> merge_loop anon st' us)"

definition merge :: "bool \<Rightarrow> utterance list \<Rightarrow> py_error + merge_state" where
  "merge anon us = merge_loop anon merge_init us"

subsection \<open>The three tracks\<close>

text \<open>
  The loop under \<^verbatim>\<open>if args.generate_audio\<close>: each track receives, for every
  annotation, its own clip where it has one and silence of the same duration where
  another track has one.
\<close>

definition clip_and_silence :: "(audio \<times> slot) option \<Rightarrow> audio \<times> audio" where
  "clip_and_silence part =
     (case part of
        None \<Rightarrow> ([], [])
      | Some (clip, _) \<Rightarrow> if clip \<noteq> [] then (clip, silent (length clip)) else ([], []))"

fun generate_audio :: "audio \<times> audio \<times> audio \<Rightarrow> oa_annotation list \<Rightarrow> audio \<times> audio \<times> audio" where
  "generate_audio outs [] = outs"
| "generate_audio (out_orig, out_rep, out_trans) (a # as) =
     (let clip_orig = audio_orig a;
          silent_orig = silent (length clip_orig);
          (clip_rep, silent_rep) = clip_and_silence (audio_rep a);
          (clip_trans, silent_trans) = clip_and_silence (audio_trans a)
      in generate_audio
           (out_orig @ clip_orig @ silent_rep @ silent_trans,
            out_rep @ silent_orig @ clip_rep @ silent_trans,
            out_trans @ silent_orig @ silent_rep @ clip_trans) as)"

subsection \<open>The document template\<close>

text \<open>
  \<^verbatim>\<open>EAF_TEMPLATE\<close> as the structure it prints: the time slots of \<^verbatim>\<open>TIME_ORDER\<close> and
  the tiers, each with its \<^verbatim>\<open>TIER_ID\<close>, \<^verbatim>\<open>LINGUISTIC_TYPE_REF\<close>, \<^verbatim>\<open>PARENT_REF\<close>
  (when it has one) and annotations, in the order of the template.  The attributes that
  name languages and people are left out.
\<close>

record time_slot =
  TIME_SLOT_ID :: string
  TIME_VALUE :: int

datatype xml_annotation =
    ALIGNABLE_ANNOTATION string string string string
  | REF_ANNOTATION string string string

record tier =
  TIER_ID :: string
  LINGUISTIC_TYPE_REF :: string
  PARENT_REF :: "string option"
  ANNOTATIONS :: "xml_annotation list"

record eaf =
  TIME_ORDER :: "time_slot list"
  TIERS :: "tier list"

text \<open>\<^verbatim>\<open>%if a['audio_rep']:\<close> is true for a clip that is there and not empty.\<close>

definition shown :: "(audio \<times> slot) option \<Rightarrow> slot option" where
  "shown part =
     (case part of None \<Rightarrow> None | Some (clip, sl) \<Rightarrow> if clip \<noteq> [] then Some sl else None)"

definition slot_time_slots :: "slot \<Rightarrow> time_slot list" where
  "slot_time_slots sl =
     [\<lparr>TIME_SLOT_ID = ts1id sl, TIME_VALUE = ts1 sl\<rparr>, \<lparr>TIME_SLOT_ID = ts2id sl, TIME_VALUE = ts2 sl\<rparr>]"

definition shown_time_slots :: "(audio \<times> slot) option \<Rightarrow> time_slot list" where
  "shown_time_slots part = (case shown part of None \<Rightarrow> [] | Some sl \<Rightarrow> slot_time_slots sl)"

definition time_order :: "oa_annotation list \<Rightarrow> time_slot list" where
  "time_order anns =
     concat (map (\<lambda>a. slot_time_slots (audio_orig_slot a) @ shown_time_slots (audio_rep a) @
                      shown_time_slots (audio_trans a)) anns)"

definition alignable :: "slot \<Rightarrow> string \<Rightarrow> xml_annotation" where
  "alignable sl v = ALIGNABLE_ANNOTATION (aid sl) (ts1id sl) (ts2id sl) v"

definition alignable_tier :: "(oa_annotation \<Rightarrow> slot option) \<Rightarrow> (oa_annotation \<Rightarrow> string) \<Rightarrow>
    oa_annotation list \<Rightarrow> xml_annotation list" where
  "alignable_tier sel val anns =
     concat (map (\<lambda>a. case sel a of None \<Rightarrow> [] | Some sl \<Rightarrow> [alignable sl (val a)]) anns)"

text \<open>
  A child tier: a loop over \<^verbatim>\<open>enumerate(annotations)\<close> that prints one
  \<^verbatim>\<open>REF_ANNOTATION\<close> with the identifier \<^verbatim>\<open>a${last_ann}\<close> for each annotation whose
  parent is shown, and adds one to \<^verbatim>\<open>last_ann\<close> after each one it prints.  It returns
  the annotations and the counter.
\<close>

fun ref_tier :: "(oa_annotation \<Rightarrow> slot option) \<Rightarrow> (nat \<Rightarrow> oa_annotation \<Rightarrow> string) \<Rightarrow>
    nat \<Rightarrow> nat \<Rightarrow> oa_annotation list \<Rightarrow> xml_annotation list \<times> nat" where
  "ref_tier sel val last_ann i [] = ([], last_ann)"
| "ref_tier sel val last_ann i (a # as) =
     (case sel a of
        None \<Rightarrow> ref_tier sel val last_ann (i + 1) as
      | Some sl \<Rightarrow>
          (case ref_tier sel val (last_ann + 1) (i + 1) as of
             (rest, n) \<Rightarrow> (REF_ANNOTATION (a_name last_ann) (aid sl) (val i a) # rest, n)))"

definition render_eaf :: "nat \<Rightarrow> oa_annotation list \<Rightarrow> eaf" where
  "render_eaf last_annotation_id anns =
     (let last_ann = last_annotation_id;
          (original_id, last_ann) =
             ref_tier (\<lambda>a. Some (audio_orig_slot a)) (\<lambda>i a. show_nat i) last_ann 0 anns;
          (original_source, last_ann) =
             ref_tier (\<lambda>a. Some (audio_orig_slot a)) (\<lambda>i a. a_source a) last_ann 0 anns;
          (repetition_id, last_ann) =
             ref_tier (\<lambda>a. shown (audio_rep a)) (\<lambda>i a. show_nat i) last_ann 0 anns;
          (translation_id, last_ann) =
             ref_tier (\<lambda>a. shown (audio_trans a)) (\<lambda>i a. show_nat i) last_ann 0 anns
      in \<lparr>TIME_ORDER = time_order anns,
          TIERS =
            [\<lparr>TIER_ID = ''Original'', LINGUISTIC_TYPE_REF = ''oral-annotation-text'',
              PARENT_REF = None,
              ANNOTATIONS = alignable_tier (\<lambda>a. Some (audio_orig_slot a)) a_orig anns\<rparr>,
             \<lparr>TIER_ID = ''Original-ID'', LINGUISTIC_TYPE_REF = ''oral-annotation-id'',
              PARENT_REF = Some ''Original'', ANNOTATIONS = original_id\<rparr>,
             \<lparr>TIER_ID = ''Original-Source'', LINGUISTIC_TYPE_REF = ''oral-annotation-source'',
              PARENT_REF = Some ''Original'', ANNOTATIONS = original_source\<rparr>,
             \<lparr>TIER_ID = ''Repetition'', LINGUISTIC_TYPE_REF = ''oral-annotation-text'',
              PARENT_REF = None,
              ANNOTATIONS = alignable_tier (\<lambda>a. shown (audio_rep a)) a_rep anns\<rparr>,
             \<lparr>TIER_ID = ''Repetition-ID'', LINGUISTIC_TYPE_REF = ''oral-annotation-id'',
              PARENT_REF = Some ''Repetition'', ANNOTATIONS = repetition_id\<rparr>,
             \<lparr>TIER_ID = ''Translation'', LINGUISTIC_TYPE_REF = ''oral-annotation-text'',
              PARENT_REF = None,
              ANNOTATIONS = alignable_tier (\<lambda>a. shown (audio_trans a)) a_trans anns\<rparr>,
             \<lparr>TIER_ID = ''Translation-ID'', LINGUISTIC_TYPE_REF = ''oral-annotation-id'',
              PARENT_REF = Some ''Translation'', ANNOTATIONS = translation_id\<rparr>,
             \<lparr>TIER_ID = ''Postprocess'', LINGUISTIC_TYPE_REF = ''event'',
              PARENT_REF = None, ANNOTATIONS = []\<rparr>]\<rparr>)"

text \<open>
  The document of a run: the template rendered with the annotations of the loop and
  \<^verbatim>\<open>last_annotation_id = annotation_id + 1\<close>.
\<close>

definition merged_document :: "merge_state \<Rightarrow> eaf" where
  "merged_document st = render_eaf (annotation_id st + 1) (annotations st)"

section \<open>Properties of the review clips\<close>

text \<open>
  Claim C8.  A failed probe yields the value \<open>-1\<close> and no exception.  The claim says
  that the context window is then left as computed from \<^verbatim>\<open>REVIEW_CONTEXT\<close>; the
  source instead takes the minimum of the extended end and \<open>-1\<close>.  For the segment
  from 5000 ms to 6000 ms the clip is cut from 4000 ms to \<open>-1\<close> ms, not to 7000 ms.
\<close>

theorem review_window_probe_failed:
  "get_duration_ms Raised = -1
   \<and> review_anonymization [(5000, 6000, ''x'')] Raised = [(4000, -1)]
   \<and> review_anonymization [(5000, 6000, ''x'')] Raised \<noteq> [(5000 - REVIEW_CONTEXT, 6000 + REVIEW_CONTEXT)]"
  by (simp add: review_anonymization_def review_window_def REVIEW_CONTEXT_def)

section \<open>Properties of the document template\<close>

text \<open>
  Claim C9, as amended.  Whatever the run, the merged document declares eight tiers:
  the four top-level tiers Original, Repetition, Translation and Postprocess (no
  parent), and four child tiers, not three: Original-ID, Repetition-ID and
  Translation-ID of the linguistic type oral-annotation-id, and Original-Source of the
  linguistic type oral-annotation-source, each under the tier it is named after.
\<close>

theorem merged_document_tiers:
  "map TIER_ID (filter (\<lambda>t. PARENT_REF t = None) (TIERS (merged_document st))) =
     [''Original'', ''Repetition'', ''Translation'', ''Postprocess'']
   \<and> map (\<lambda>t. (TIER_ID t, LINGUISTIC_TYPE_REF t, PARENT_REF t))
         (filter (\<lambda>t. PARENT_REF t \<noteq> None) (TIERS (merged_document st))) =
     [(''Original-ID'', ''oral-annotation-id'', Some ''Original''),
      (''Original-Source'', ''oral-annotation-source'', Some ''Original''),
      (''Repetition-ID'', ''oral-annotation-id'', Some ''Repetition''),
      (''Translation-ID'', ''oral-annotation-id'', Some ''Translation'')]
   \<and> length (TIERS (merged_document st)) = 8"
  by (simp add: merged_document_def render_eaf_def Let_def case_prod_beta)

text \<open>
  The count of claim C9, three child tiers, fails already for the run without
  utterances: its document has four.
\<close>

theorem child_tiers_counterexample:
  "length (filter (\<lambda>t. PARENT_REF t \<noteq> None) (TIERS (merged_document merge_init))) \<noteq> 3"
  by (simp add: merged_document_def render_eaf_def merge_init_def)

section \<open>Identifiers allocated by the timeline merger\<close>

text \<open>
  The slots of the clips of an annotation, in the order in which the loop places them,
  and the identifiers that the loop writes into them.
\<close>

definition slot_ts_ids :: "slot \<Rightarrow> string list" where
  "slot_ts_ids sl = [ts1id sl, ts2id sl]"

definition part_slots :: "(audio \<times> slot) option \<Rightarrow> slot list" where
  "part_slots part = (case part of None \<Rightarrow> [] | Some (_, sl) \<Rightarrow> [sl])"

definition clip_slots :: "oa_annotation \<Rightarrow> slot list" where
  "clip_slots a = audio_orig_slot a # part_slots (audio_rep a) @ part_slots (audio_trans a)"

definition allocated_timeslot_ids :: "oa_annotation list \<Rightarrow> string list" where
  "allocated_timeslot_ids anns = concat (map slot_ts_ids (concat (map clip_slots anns)))"

definition allocated_annotation_ids :: "oa_annotation list \<Rightarrow> string list" where
  "allocated_annotation_ids anns = map aid (concat (map clip_slots anns))"

definition clips_of :: "utterance \<Rightarrow> nat" where
  "clips_of u =
     (if src_text u = ''%ignore%'' then 0
      else 1 + (case careful_wav u of None \<Rightarrow> 0 | Some _ \<Rightarrow> 1) +
           (case translation_wav u of None \<Rightarrow> 0 | Some _ \<Rightarrow> 1))"

definition clips :: "utterance list \<Rightarrow> nat" where
  "clips us = sum_list (map clips_of us)"

lemma upt_two: "[t ..< t + 2] = [t, t + 1]"
  by (simp add: upt_rec)

lemma place_props:
  assumes "place st d = (sl, st')"
  shows "slot_ts_ids sl = map ts_name [timeslot_id st ..< timeslot_id st']"
    and "aid sl = a_name (annotation_id st)"
    and "timeslot_id st' = timeslot_id st + 2"
    and "annotation_id st' = annotation_id st + 1"
    and "annotations st' = annotations st"
  using assms by (auto simp: place_def slot_ts_ids_def upt_two)

lemma place_file_props:
  assumes "place_file st wav = (part, st')"
  shows "concat (map slot_ts_ids (part_slots part)) = map ts_name [timeslot_id st ..< timeslot_id st']"
    and "map aid (part_slots part) = map a_name [annotation_id st ..< annotation_id st']"
    and "timeslot_id st' = timeslot_id st + 2 * (case wav of None \<Rightarrow> 0 | Some _ \<Rightarrow> 1)"
    and "annotation_id st' = annotation_id st + (case wav of None \<Rightarrow> 0 | Some _ \<Rightarrow> 1)"
    and "annotations st' = annotations st"
proof -
  show "concat (map slot_ts_ids (part_slots part)) = map ts_name [timeslot_id st ..< timeslot_id st']"
    using assms place_props(1)
    by (fastforce simp: place_file_def part_slots_def split: option.splits prod.splits)
  show "map aid (part_slots part) = map a_name [annotation_id st ..< annotation_id st']"
    using assms
    by (auto simp: place_file_def part_slots_def place_def split: option.splits)
  show "timeslot_id st' = timeslot_id st + 2 * (case wav of None \<Rightarrow> 0 | Some _ \<Rightarrow> 1)"
    using assms by (auto simp: place_file_def place_def split: option.splits)
  show "annotation_id st' = annotation_id st + (case wav of None \<Rightarrow> 0 | Some _ \<Rightarrow> 1)"
    using assms by (auto simp: place_file_def place_def split: option.splits)
  show "annotations st' = annotations st"
    using assms by (auto simp: place_file_def place_def split: option.splits)
qed

lemma part_slots_silence_if [simp]: "part_slots (silence_if b part) = part_slots part"
  by (auto simp: part_slots_def silence_if_def split: option.splits)

lemma merge_utterance_ignored:
  "src_text u = ''%ignore%'' \<Longrightarrow> merge_utterance anon st u = Inr st"
  by (simp add: merge_utterance_def)

lemma upt_append_map:
  "i \<le> j \<Longrightarrow> j \<le> k \<Longrightarrow> map f [i ..< j] @ map f [j ..< k] = map f [i ..< k]"
  by (metis le_Suc_ex map_append upt_add_eq_append)

lemma merge_utterance_kept:
  assumes m: "merge_utterance anon st u = Inr st'" and k: "src_text u \<noteq> ''%ignore%''"
  shows "\<exists>a. annotations st' = annotations st @ [a]
     \<and> concat (map slot_ts_ids (clip_slots a)) = map ts_name [timeslot_id st ..< timeslot_id st']
     \<and> map aid (clip_slots a) = map a_name [annotation_id st ..< annotation_id st']
     \<and> timeslot_id st' = timeslot_id st + 2 * clips_of u
     \<and> annotation_id st' = annotation_id st + clips_of u"
proof -
  obtain sl st1 where p1: "place st (src_end_ms u - src_start_ms u) = (sl, st1)"
    by (cases "place st (src_end_ms u - src_start_ms u)")
  obtain rp st2 where p2: "place_file st1 (careful_wav u) = (rp, st2)"
    by (cases "place_file st1 (careful_wav u)")
  obtain tp st3 where p3: "place_file st2 (translation_wav u) = (tp, st3)"
    by (cases "place_file st2 (translation_wav u)")
  from m k p1 p2 p3 obtain a where
    st': "st' = st3\<lparr>annotations := annotations st3 @ [a]\<rparr>"
    and a: "audio_orig_slot a = sl" "part_slots (audio_rep a) = part_slots rp"
       "part_slots (audio_trans a) = part_slots tp"
    unfolding merge_utterance_def
    by (auto simp: Let_def split: if_splits sum.splits option.splits prod.splits)
  note q1 = place_props [OF p1] and q2 = place_file_props [OF p2] and q3 = place_file_props [OF p3]
  have le: "timeslot_id st \<le> timeslot_id st1" "timeslot_id st1 \<le> timeslot_id st2"
    "timeslot_id st2 \<le> timeslot_id st3" "annotation_id st \<le> annotation_id st1"
    "annotation_id st1 \<le> annotation_id st2" "annotation_id st2 \<le> annotation_id st3"
    using q1(3,4) q2(3,4) q3(3,4) by simp_all
  have "concat (map slot_ts_ids (clip_slots a))
      = map ts_name [timeslot_id st ..< timeslot_id st1] @
        map ts_name [timeslot_id st1 ..< timeslot_id st2] @
        map ts_name [timeslot_id st2 ..< timeslot_id st3]"
    using a q1(1) q2(1) q3(1) by (simp add: clip_slots_def)
  also have "\<dots> = map ts_name [timeslot_id st ..< timeslot_id st3]"
    using le by (simp add: upt_append_map)
  finally have ts: "concat (map slot_ts_ids (clip_slots a)) = map ts_name [timeslot_id st ..< timeslot_id st']"
    using st' by simp
  have "[annotation_id st ..< annotation_id st1] = [annotation_id st]"
    using q1(4) by (simp add: upt_rec)
  then have "map aid (clip_slots a)
      = map a_name [annotation_id st ..< annotation_id st1] @
        map a_name [annotation_id st1 ..< annotation_id st2] @
        map a_name [annotation_id st2 ..< annotation_id st3]"
    using a q1(2) q2(2) q3(2) by (simp add: clip_slots_def)
  also have "\<dots> = map a_name [annotation_id st ..< annotation_id st3]"
    using le by (simp add: upt_append_map)
  finally have as: "map aid (clip_slots a) = map a_name [annotation_id st ..< annotation_id st']"
    using st' by simp
  have c1: "timeslot_id st' = timeslot_id st + 2 * clips_of u"
    using st' k q1(3) q2(3) q3(3) by (simp add: clips_of_def split: option.splits)
  have c2: "annotation_id st' = annotation_id st + clips_of u"
    using st' k q1(4) q2(4) q3(4) by (simp add: clips_of_def split: option.splits)
  have "annotations st' = annotations st @ [a]"
    using st' q1(5) q2(5) q3(5) by simp
  with ts as c1 c2 show ?thesis by blast
qed

lemma merge_loop_ids:
  assumes "merge_loop anon st us = Inr st'"
  shows "\<exists>new. annotations st' = annotations st @ new
     \<and> allocated_timeslot_ids new = map ts_name [timeslot_id st ..< timeslot_id st']
     \<and> allocated_annotation_ids new = map a_name [annotation_id st ..< annotation_id st']
     \<and> timeslot_id st' = timeslot_id st + 2 * clips us
     \<and> annotation_id st' = annotation_id st + clips us"
  using assms
proof (induction us arbitrary: st)
  case Nil
  then show ?case
    by (simp add: allocated_timeslot_ids_def allocated_annotation_ids_def clips_def)
next
  case (Cons u us)
  from Cons.prems obtain st1 where s1: "merge_utterance anon st u = Inr st1"
    and l: "merge_loop anon st1 us = Inr st'"
    by (auto split: sum.splits)
  from Cons.IH [OF l] obtain new where n:
    "annotations st' = annotations st1 @ new"
    "allocated_timeslot_ids new = map ts_name [timeslot_id st1 ..< timeslot_id st']"
    "allocated_annotation_ids new = map a_name [annotation_id st1 ..< annotation_id st']"
    "timeslot_id st' = timeslot_id st1 + 2 * clips us"
    "annotation_id st' = annotation_id st1 + clips us"
    by blast
  show ?case
  proof (cases "src_text u = ''%ignore%''")
    case True
    with s1 have "st1 = st" by (simp add: merge_utterance_ignored)
    with n True show ?thesis by (auto simp: clips_def clips_of_def)
  next
    case False
    from merge_utterance_kept [OF s1 False] obtain a where a:
      "annotations st1 = annotations st @ [a]"
      "concat (map slot_ts_ids (clip_slots a)) = map ts_name [timeslot_id st ..< timeslot_id st1]"
      "map aid (clip_slots a) = map a_name [annotation_id st ..< annotation_id st1]"
      "timeslot_id st1 = timeslot_id st + 2 * clips_of u"
      "annotation_id st1 = annotation_id st + clips_of u"
      by blast
    have le: "timeslot_id st \<le> timeslot_id st1" "timeslot_id st1 \<le> timeslot_id st'"
      "annotation_id st \<le> annotation_id st1" "annotation_id st1 \<le> annotation_id st'"
      using a(4,5) n(4,5) by simp_all
    have "allocated_timeslot_ids (a # new) = map ts_name [timeslot_id st ..< timeslot_id st']"
      using a(2) n(2) upt_append_map [OF le(1,2), of ts_name]
      by (simp add: allocated_timeslot_ids_def)
    moreover have "allocated_annotation_ids (a # new) = map a_name [annotation_id st ..< annotation_id st']"
      using a(3) n(3) upt_append_map [OF le(3,4), of a_name]
      by (simp add: allocated_annotation_ids_def)
    moreover have "annotations st' = annotations st @ (a # new)"
      using a(1) n(1) by simp
    moreover have "timeslot_id st' = timeslot_id st + 2 * clips (u # us)"
      "annotation_id st' = annotation_id st + clips (u # us)"
      using a(4,5) n(4,5) by (simp_all add: clips_def)
    ultimately show ?thesis by blast
  qed
qed

section \<open>Tracks and timeslots of the timeline merger\<close>

lemma digit_char_inj: "i < 10 \<Longrightarrow> j < 10 \<Longrightarrow> digit_char i = digit_char j \<Longrightarrow> i = j"
  unfolding digit_char_def
  by (auto simp: less_Suc_eq numeral_eq_Suc)

lemma show_nat_small: "n < 10 \<Longrightarrow> show_nat n = [digit_char n]"
  by (subst show_nat.simps) simp

lemma show_nat_big:
  "\<not> n < 10 \<Longrightarrow> show_nat n = show_nat (n div 10) @ [digit_char (n mod 10)]"
  by (subst show_nat.simps) simp

lemma show_nat_not_Nil: "show_nat n \<noteq> []"
  by (cases "n < 10") (simp_all add: show_nat_small show_nat_big)

lemma show_nat_inj: "show_nat n = show_nat m \<Longrightarrow> n = m"
proof (induction n arbitrary: m rule: show_nat.induct)
  case (1 n)
  show ?case
  proof (cases "n < 10")
    case True
    show ?thesis
    proof (cases "m < 10")
      case m: True
      with True "1.prems" show ?thesis
        by (simp add: show_nat_small digit_char_inj)
    next
      case False
      with True "1.prems" show_nat_not_Nil [of "m div 10"] show ?thesis
        by (simp add: show_nat_small show_nat_big)
    qed
  next
    case False
    show ?thesis
    proof (cases "m < 10")
      case True
      with False "1.prems" show_nat_not_Nil [of "n div 10"] show ?thesis
        by (simp add: show_nat_small show_nat_big)
    next
      case m: False
      with False "1.prems" have e: "show_nat (n div 10) = show_nat (m div 10)"
        and d: "digit_char (n mod 10) = digit_char (m mod 10)"
        by (simp_all add: show_nat_big)
      from "1.IH" [OF False e] have "n div 10 = m div 10" .
      moreover from d have "n mod 10 = m mod 10"
        by (rule digit_char_inj [rotated 2]) simp_all
      ultimately show ?thesis
        by (metis div_mult_mod_eq)
    qed
  qed
qed

lemma inj_ts_name: "inj ts_name"
  by (rule injI) (simp add: ts_name_def show_nat_inj)

lemma inj_a_name: "inj a_name"
  by (rule injI) (simp add: a_name_def show_nat_inj)

lemma distinct_names:
  "distinct (map ts_name [i ..< j])" "distinct (map a_name [i ..< j])"
  by (simp_all add: distinct_map inj_ts_name inj_a_name inj_on_subset [OF _ subset_UNIV])


definition original_clips :: "utterance list \<Rightarrow> nat" where
  "original_clips us = length (filter (\<lambda>u. src_text u \<noteq> ''%ignore%'') us)"

definition repetition_clips :: "utterance list \<Rightarrow> nat" where
  "repetition_clips us =
     length (filter (\<lambda>u. src_text u \<noteq> ''%ignore%'' \<and> careful_wav u \<noteq> None) us)"

definition translation_clips :: "utterance list \<Rightarrow> nat" where
  "translation_clips us =
     length (filter (\<lambda>u. src_text u \<noteq> ''%ignore%'' \<and> translation_wav u \<noteq> None) us)"


text \<open>
  The turns of the loop that do not raise: the annotation is skipped, or its text has at
  most one separator and both look-ups find an annotation.
\<close>

definition mergeable :: "utterance \<Rightarrow> bool" where
  "mergeable u =
     (src_text u = ''%ignore%'' \<or>
      (case split_orig_rep (src_text u) of Inl _ \<Rightarrow> False | Inr _ \<Rightarrow> True) \<and>
      trans_lookup u \<noteq> None \<and> source_lookup u \<noteq> None)"

lemma merge_utterance_total:
  "mergeable u \<Longrightarrow> \<exists>st'. merge_utterance anon st u = Inr st'"
  unfolding mergeable_def merge_utterance_def
  by (auto simp: Let_def split: sum.splits option.splits prod.splits)

lemma merge_loop_total:
  "list_all mergeable us \<Longrightarrow> \<exists>st'. merge_loop anon st us = Inr st'"
proof (induction us arbitrary: st)
  case Nil
  then show ?case by simp
next
  case (Cons u us)
  then obtain st1 where "merge_utterance anon st u = Inr st1"
    using merge_utterance_total [of u anon st] by auto
  with Cons show ?case by simp
qed



text \<open>
  Three utterances: one with both oral annotations, one that SayMore ignores, and one
  with a name to redact and an empty repetition file.
\<close>

definition example_utterances :: "utterance list" where
  "example_utterances =
     [\<lparr>src_start_ms = 0, src_end_ms = 3, src_text = ''hello || hi'', trans_lookup = Some ''hey'',
       source_lookup = Some ''src'', src_clip = [1, 2, 3], careful_wav = Some [4, 5],
       translation_wav = Some [6]\<rparr>,
      \<lparr>src_start_ms = 3, src_end_ms = 5, src_text = ''%ignore%'', trans_lookup = None,
       source_lookup = None, src_clip = [1, 1], careful_wav = None, translation_wav = None\<rparr>,
      \<lparr>src_start_ms = 5, src_end_ms = 7, src_text = ''[name]Bob[/name]'',
       trans_lookup = Some ''it is him'', source_lookup = Some ''src'', src_clip = [8, 9],
       careful_wav = Some [], translation_wav = None\<rparr>]"

lemma example_utterances_mergeable: "list_all mergeable example_utterances"
  by (simp add: example_utterances_def mergeable_def split_orig_rep_def split_str_def)


lemma example_merge_values:
  "original_clips example_utterances = 2" "repetition_clips example_utterances = 2"
  "translation_clips example_utterances = 1"
  by (simp_all add: example_utterances_def original_clips_def repetition_clips_def
      translation_clips_def)

section \<open>Identifiers of the merged document\<close>

fun annotation_id_of :: "xml_annotation \<Rightarrow> string" where
  "annotation_id_of (ALIGNABLE_ANNOTATION i r1 r2 v) = i"
| "annotation_id_of (REF_ANNOTATION i r v) = i"

fun timeslot_refs_of :: "xml_annotation \<Rightarrow> string list" where
  "timeslot_refs_of (ALIGNABLE_ANNOTATION i r1 r2 v) = [r1, r2]"
| "timeslot_refs_of (REF_ANNOTATION i r v) = []"

fun annotation_refs_of :: "xml_annotation \<Rightarrow> string list" where
  "annotation_refs_of (ALIGNABLE_ANNOTATION i r1 r2 v) = []"
| "annotation_refs_of (REF_ANNOTATION i r v) = [r]"

definition tier_ids :: "tier \<Rightarrow> string list" where
  "tier_ids t = map annotation_id_of (ANNOTATIONS t)"

definition tier_refs :: "tier \<Rightarrow> string list" where
  "tier_refs t = concat (map annotation_refs_of (ANNOTATIONS t))"

definition declared_timeslot_ids :: "eaf \<Rightarrow> string list" where
  "declared_timeslot_ids doc = map TIME_SLOT_ID (TIME_ORDER doc)"

definition timeslot_refs :: "eaf \<Rightarrow> string list" where
  "timeslot_refs doc = concat (map timeslot_refs_of (concat (map ANNOTATIONS (TIERS doc))))"

definition annotation_ids :: "eaf \<Rightarrow> string list" where
  "annotation_ids doc = concat (map tier_ids (TIERS doc))"

definition annotation_refs :: "eaf \<Rightarrow> string list" where
  "annotation_refs doc = concat (map tier_refs (TIERS doc))"

definition opt_list :: "'a option \<Rightarrow> 'a list" where
  "opt_list x = (case x of None \<Rightarrow> [] | Some y \<Rightarrow> [y])"

lemma opt_list_simps [simp]: "opt_list None = []" "opt_list (Some y) = [y]"
  by (simp_all add: opt_list_def)

definition sel_slots :: "(oa_annotation \<Rightarrow> slot option) \<Rightarrow> oa_annotation list \<Rightarrow> slot list" where
  "sel_slots sel anns = concat (map (\<lambda>a. opt_list (sel a)) anns)"

lemma sel_slots_simps [simp]:
  "sel_slots sel [] = []"
  "sel_slots sel (a # anns) = opt_list (sel a) @ sel_slots sel anns"
  by (simp_all add: sel_slots_def)

lemma ref_tier_snd:
  "snd (ref_tier sel val l i anns) = l + length (sel_slots sel anns)"
  by (induction anns arbitrary: l i) (auto simp: case_prod_beta split: option.splits)

lemma ref_tier_ids:
  "map annotation_id_of (fst (ref_tier sel val l i anns))
     = map a_name [l ..< l + length (sel_slots sel anns)]"
proof (induction anns arbitrary: l i)
  case Nil
  then show ?case by simp
next
  case (Cons a anns)
  show ?case
  proof (cases "sel a")
    case None
    then show ?thesis using Cons.IH [of l "i + 1"] by simp
  next
    case (Some sl)
    have "[l ..< l + Suc k] = l # [Suc l ..< Suc l + k]" for k
      by (simp add: upt_conv_Cons)
    then have "[l ..< l + length (sel_slots sel (a # anns))]
        = l # [Suc l ..< Suc l + length (sel_slots sel anns)]"
      using Some by simp
    then show ?thesis
      using Some Cons.IH [of "l + 1" "i + 1"] by (simp add: case_prod_beta)
  qed
qed

lemma ref_tier_refs:
  "concat (map annotation_refs_of (fst (ref_tier sel val l i anns))) = map aid (sel_slots sel anns)"
  by (induction anns arbitrary: l i) (auto simp: case_prod_beta split: option.splits)

lemma ref_tier_no_timeslots:
  "concat (map timeslot_refs_of (fst (ref_tier sel val l i anns))) = []"
  by (induction anns arbitrary: l i) (auto simp: case_prod_beta split: option.splits)

lemma alignable_tier_ids:
  "map annotation_id_of (alignable_tier sel val anns) = map aid (sel_slots sel anns)"
  by (induction anns) (auto simp: alignable_tier_def alignable_def split: option.splits)

lemma alignable_tier_timeslots:
  "concat (map timeslot_refs_of (alignable_tier sel val anns))
     = concat (map slot_ts_ids (sel_slots sel anns))"
  by (induction anns)
    (auto simp: alignable_tier_def alignable_def slot_ts_ids_def split: option.splits)

lemma alignable_tier_no_refs:
  "concat (map annotation_refs_of (alignable_tier sel val anns)) = []"
  by (induction anns) (auto simp: alignable_tier_def alignable_def split: option.splits)

abbreviation sel_orig :: "oa_annotation \<Rightarrow> slot option" where
  "sel_orig \<equiv> \<lambda>a. Some (audio_orig_slot a)"

abbreviation sel_rep :: "oa_annotation \<Rightarrow> slot option" where
  "sel_rep \<equiv> \<lambda>a. shown (audio_rep a)"

abbreviation sel_trans :: "oa_annotation \<Rightarrow> slot option" where
  "sel_trans \<equiv> \<lambda>a. shown (audio_trans a)"

lemma declared_ids_render:
  "mset (declared_timeslot_ids (render_eaf n anns))
     = mset (concat (map slot_ts_ids (sel_slots sel_orig anns)))
     + mset (concat (map slot_ts_ids (sel_slots sel_rep anns)))
     + mset (concat (map slot_ts_ids (sel_slots sel_trans anns)))"
proof -
  have "mset (map TIME_SLOT_ID (time_order anns))
     = mset (concat (map slot_ts_ids (sel_slots sel_orig anns)))
     + mset (concat (map slot_ts_ids (sel_slots sel_rep anns)))
     + mset (concat (map slot_ts_ids (sel_slots sel_trans anns)))"
    by (induction anns)
      (auto simp: time_order_def slot_time_slots_def shown_time_slots_def slot_ts_ids_def
        split: option.splits)
  then show ?thesis
    by (simp add: declared_timeslot_ids_def render_eaf_def Let_def case_prod_beta)
qed

lemma timeslot_refs_render:
  "timeslot_refs (render_eaf n anns)
     = concat (map slot_ts_ids (sel_slots sel_orig anns))
     @ concat (map slot_ts_ids (sel_slots sel_rep anns))
     @ concat (map slot_ts_ids (sel_slots sel_trans anns))"
  by (simp add: timeslot_refs_def render_eaf_def Let_def case_prod_beta
      alignable_tier_timeslots ref_tier_no_timeslots)

lemma shown_slots_sub:
  "mset (sel_slots sel_orig anns) + mset (sel_slots sel_rep anns) + mset (sel_slots sel_trans anns)
     \<subseteq># mset (concat (map clip_slots anns))"
proof (induction anns)
  case Nil
  then show ?case by simp
next
  case (Cons a anns)
  have r: "mset (opt_list (shown (audio_rep a))) \<subseteq># mset (part_slots (audio_rep a))"
    by (auto simp: shown_def part_slots_def split: option.splits)
  have t: "mset (opt_list (shown (audio_trans a))) \<subseteq># mset (part_slots (audio_trans a))"
    by (auto simp: shown_def part_slots_def split: option.splits)
  have "{#audio_orig_slot a#} + mset (opt_list (shown (audio_rep a)))
        + mset (opt_list (shown (audio_trans a)))
      \<subseteq># mset (clip_slots a)"
    using subset_mset.add_mono [OF r t] by (simp add: clip_slots_def)
  from subset_mset.add_mono [OF this Cons.IH] show ?case
    by (simp add: ac_simps)
qed

lemma mset_concat_map_mono:
  assumes "mset xs \<subseteq># mset ys"
  shows "mset (concat (map f xs)) \<subseteq># mset (concat (map f ys))"
proof -
  have e: "mset (concat (map f zs)) = \<Sum>\<^sub># (image_mset (\<lambda>x. mset (f x)) (mset zs))" for zs
    by (induction zs) simp_all
  from assms obtain C where "mset ys = mset xs + C"
    by (auto simp: mset_subset_eq_exists_conv)
  then show ?thesis by (simp add: e)
qed

lemma distinct_mset_sub:
  assumes "mset xs \<subseteq># mset ys" "distinct ys"
  shows "distinct xs"
proof -
  have "count (mset xs) a = (if a \<in> set xs then 1 else 0)" for a
  proof (cases "a \<in> set xs")
    case True
    then have "0 < count (mset xs) a" by (simp add: count_mset_gt_0)
    moreover have "count (mset xs) a \<le> count (mset ys) a"
      using assms(1) by (rule mset_subset_eq_count)
    moreover have "count (mset ys) a \<le> 1"
      using assms(2) by (simp add: distinct_count_atmost_1)
    ultimately have "count (mset xs) a = 1" by linarith
    with True show ?thesis by (simp only: if_True)
  next
    case False
    then show ?thesis by simp
  qed
  then show ?thesis by (simp add: distinct_count_atmost_1)
qed

lemma annotation_ids_render:
  "annotation_ids (render_eaf n anns)
     = map aid (sel_slots sel_orig anns)
     @ map a_name [n ..< n + length (sel_slots sel_orig anns)]
     @ map a_name [n + length (sel_slots sel_orig anns)
          ..< n + length (sel_slots sel_orig anns) + length (sel_slots sel_orig anns)]
     @ map aid (sel_slots sel_rep anns)
     @ map a_name [n + length (sel_slots sel_orig anns) + length (sel_slots sel_orig anns)
          ..< n + length (sel_slots sel_orig anns) + length (sel_slots sel_orig anns)
              + length (sel_slots sel_rep anns)]
     @ map aid (sel_slots sel_trans anns)
     @ map a_name [n + length (sel_slots sel_orig anns) + length (sel_slots sel_orig anns)
              + length (sel_slots sel_rep anns)
          ..< n + length (sel_slots sel_orig anns) + length (sel_slots sel_orig anns)
              + length (sel_slots sel_rep anns) + length (sel_slots sel_trans anns)]"
  by (simp add: annotation_ids_def tier_ids_def render_eaf_def Let_def case_prod_beta
      alignable_tier_ids ref_tier_ids ref_tier_snd)

lemma annotation_ids_render_mset:
  "mset (annotation_ids (render_eaf n anns))
     = mset (map aid (sel_slots sel_orig anns @ sel_slots sel_rep anns @ sel_slots sel_trans anns))
     + mset (map a_name [n ..< n + length (sel_slots sel_orig anns)
              + length (sel_slots sel_orig anns) + length (sel_slots sel_rep anns)
              + length (sel_slots sel_trans anns)])"
proof -
  define o' r t where "o' = length (sel_slots sel_orig anns)"
    and "r = length (sel_slots sel_rep anns)" and "t = length (sel_slots sel_trans anns)"
  have "[n ..< n + o' + o' + r + t]
      = [n ..< n + o'] @ [n + o' ..< n + o' + o'] @ [n + o' + o' ..< n + o' + o' + r]
        @ [n + o' + o' + r ..< n + o' + o' + r + t]"
    using upt_add_eq_append [of n "n + o' + o' + r" t]
      upt_add_eq_append [of n "n + o' + o'" r] upt_add_eq_append [of n "n + o'" o']
      upt_add_eq_append [of n n o']
    by (simp only: le_add1 append_assoc upt_conv_Nil [of n n] order_refl append_Nil)
  then have "mset (map a_name [n ..< n + o' + o' + r + t])
      = mset (map a_name [n ..< n + o']) + mset (map a_name [n + o' ..< n + o' + o'])
      + mset (map a_name [n + o' + o' ..< n + o' + o' + r])
      + mset (map a_name [n + o' + o' + r ..< n + o' + o' + r + t])"
    by (simp only: map_append mset_append ac_simps)
  then show ?thesis
    unfolding annotation_ids_render o'_def r_def t_def
    by (simp only: map_append mset_append ac_simps)
qed

lemma tier_structure_render:
  "tier_refs (TIERS (render_eaf n anns) ! 1) = tier_ids (TIERS (render_eaf n anns) ! 0)"
  "tier_refs (TIERS (render_eaf n anns) ! 2) = tier_ids (TIERS (render_eaf n anns) ! 0)"
  "tier_refs (TIERS (render_eaf n anns) ! 4) = tier_ids (TIERS (render_eaf n anns) ! 3)"
  "tier_refs (TIERS (render_eaf n anns) ! 6) = tier_ids (TIERS (render_eaf n anns) ! 5)"
  "annotation_refs (render_eaf n anns)
     = tier_ids (TIERS (render_eaf n anns) ! 0) @ tier_ids (TIERS (render_eaf n anns) ! 0)
     @ tier_ids (TIERS (render_eaf n anns) ! 3) @ tier_ids (TIERS (render_eaf n anns) ! 5)"
  by (simp_all add: annotation_refs_def tier_refs_def tier_ids_def render_eaf_def Let_def
      case_prod_beta alignable_tier_ids alignable_tier_no_refs ref_tier_refs)

lemma merged_document_ids:
  assumes m: "merge anon us = Inr st"
  shows "distinct (declared_timeslot_ids (merged_document st))"
    and "distinct (annotation_ids (merged_document st))"
    and "mset (timeslot_refs (merged_document st)) = mset (declared_timeslot_ids (merged_document st))"
    and "list_all (\<lambda>x. count_list (timeslot_refs (merged_document st)) x = 1)
           (declared_timeslot_ids (merged_document st))"
proof -
  define anns where "anns = annotations st"
  define S where "S = sel_slots sel_orig anns @ sel_slots sel_rep anns @ sel_slots sel_trans anns"
  from m have "merge_loop anon merge_init us = Inr st"
    by (simp add: merge_def)
  from merge_loop_ids [OF this] have
    ts: "allocated_timeslot_ids anns = map ts_name [1 ..< timeslot_id st]"
    and as: "allocated_annotation_ids anns = map a_name [1 ..< annotation_id st]"
    by (auto simp: merge_init_def anns_def)
  have sub: "mset S \<subseteq># mset (concat (map clip_slots anns))"
    using shown_slots_sub [of anns] by (simp add: S_def ac_simps)
  have d: "mset (declared_timeslot_ids (merged_document st)) = mset (concat (map slot_ts_ids S))"
    by (simp add: merged_document_def declared_ids_render S_def anns_def)
  have "mset (concat (map slot_ts_ids S)) \<subseteq># mset (allocated_timeslot_ids anns)"
    unfolding allocated_timeslot_ids_def using sub by (rule mset_concat_map_mono)
  then have "mset (declared_timeslot_ids (merged_document st)) \<subseteq># mset (map ts_name [1 ..< timeslot_id st])"
    by (simp only: d ts)
  then show dd: "distinct (declared_timeslot_ids (merged_document st))"
    by (rule distinct_mset_sub) (rule distinct_names)
  show r: "mset (timeslot_refs (merged_document st)) = mset (declared_timeslot_ids (merged_document st))"
    by (simp add: merged_document_def declared_ids_render timeslot_refs_render)
  have "count_list (timeslot_refs (merged_document st)) x = 1"
    if "x \<in> set (declared_timeslot_ids (merged_document st))" for x
  proof -
    have "count (mset (timeslot_refs (merged_document st))) x = 1"
      using dd that by (simp only: r distinct_count_atmost_1 if_True)
    then show ?thesis by (simp only: count_mset)
  qed
  then show "list_all (\<lambda>x. count_list (timeslot_refs (merged_document st)) x = 1)
           (declared_timeslot_ids (merged_document st))"
    by (simp add: list_all_iff)
  define L where "L = annotation_id st + 1 + length (sel_slots sel_orig anns)
      + length (sel_slots sel_orig anns) + length (sel_slots sel_rep anns)
      + length (sel_slots sel_trans anns)"
  have a: "mset (annotation_ids (merged_document st))
      = mset (map aid S) + mset (map a_name [annotation_id st + 1 ..< L])"
    by (simp only: merged_document_def annotation_ids_render_mset S_def anns_def L_def)
  have "mset (map aid S) \<subseteq># mset (map aid (concat (map clip_slots anns)))"
    using sub by (simp add: image_mset_subseteq_mono)
  then have "mset (map aid S) \<subseteq># mset (map a_name [1 ..< annotation_id st])"
    using as by (simp only: allocated_annotation_ids_def)
  then have "mset (annotation_ids (merged_document st))
      \<subseteq># mset (map a_name ([1 ..< annotation_id st] @ [annotation_id st + 1 ..< L]))"
    by (simp add: a)
  moreover have "distinct (map a_name ([1 ..< annotation_id st] @ [annotation_id st + 1 ..< L]))"
    by (simp only: distinct_map inj_on_subset [OF inj_a_name subset_UNIV]) simp
  ultimately show "distinct (annotation_ids (merged_document st))"
    by (rule distinct_mset_sub)
qed

lemma annotation_ids_by_tier:
  "annotation_ids (render_eaf n anns)
     = tier_ids (TIERS (render_eaf n anns) ! 0) @ tier_ids (TIERS (render_eaf n anns) ! 1)
     @ tier_ids (TIERS (render_eaf n anns) ! 2) @ tier_ids (TIERS (render_eaf n anns) ! 3)
     @ tier_ids (TIERS (render_eaf n anns) ! 4) @ tier_ids (TIERS (render_eaf n anns) ! 5)
     @ tier_ids (TIERS (render_eaf n anns) ! 6)"
  by (simp add: annotation_ids_def tier_ids_def render_eaf_def Let_def case_prod_beta)

lemma count_list_distinct:
  "distinct xs \<Longrightarrow> count_list xs x = (if x \<in> set xs then 1 else 0)"
  by (induction xs) auto

lemma reference_counts:
  assumes "distinct (t0 @ t1 @ t2 @ t3 @ t4 @ t5 @ t6)"
  shows "list_all (\<lambda>x. count_list (t0 @ t0 @ t3 @ t5) x = 2) t0"
    and "list_all (\<lambda>x. count_list (t0 @ t0 @ t3 @ t5) x = 1) (t3 @ t5)"
    and "list_all (\<lambda>x. count_list (t0 @ t0 @ t3 @ t5) x = 0) (t1 @ t2 @ t4 @ t6)"
proof -
  have d: "distinct t0" "distinct t3" "distinct t5"
    using assms by simp_all
  have c: "count_list (t0 @ t0 @ t3 @ t5) x
      = 2 * (if x \<in> set t0 then 1 else 0) + (if x \<in> set t3 then 1 else 0)
        + (if x \<in> set t5 then 1 else 0)" for x
    by (simp add: count_list_distinct d)
  show "list_all (\<lambda>x. count_list (t0 @ t0 @ t3 @ t5) x = 2) t0"
    unfolding c list_all_iff using assms by auto
  show "list_all (\<lambda>x. count_list (t0 @ t0 @ t3 @ t5) x = 1) (t3 @ t5)"
    unfolding c list_all_iff using assms by auto
  show "list_all (\<lambda>x. count_list (t0 @ t0 @ t3 @ t5) x = 0) (t1 @ t2 @ t4 @ t6)"
    unfolding c list_all_iff using assms by auto
qed

text \<open>
  The whole script on the utterances of a session: the document it writes and the three
  tracks it joins, or the exception that ends it.
\<close>

definition export_saymore :: "bool \<Rightarrow> utterance list \<Rightarrow> py_error + eaf \<times> audio \<times> audio \<times> audio" where
  "export_saymore anon us =
     (case merge anon us of
        Inl e \<Rightarrow> Inl e
      | Inr st \<Rightarrow> Inr (merged_document st, generate_audio ([], [], []) (annotations st)))"

text \<open>
  Claim C7, as amended.  For every sequence of utterances on which the loop does not
  raise, the script writes a document in which the identifiers of the time slots are
  pairwise different, the identifiers of all annotations (the aligned ones and the
  children numbered from the counter handed to the template) are pairwise different,
  and every time slot is referenced exactly once, as a boundary of one aligned
  annotation.  An annotation identifier is not referenced exactly once: the references
  of each child tier are the identifiers of its parent tier, one for one, so every
  annotation of Original is referenced twice (by Original-ID and by Original-Source),
  every annotation of Repetition and of Translation once, and the children never.
\<close>

theorem merged_document_identifiers:
  assumes "list_all mergeable us"
  shows "\<exists>doc tracks. export_saymore anon us = Inr (doc, tracks)
    \<and> distinct (declared_timeslot_ids doc)
    \<and> distinct (annotation_ids doc)
    \<and> mset (timeslot_refs doc) = mset (declared_timeslot_ids doc)
    \<and> list_all (\<lambda>x. count_list (timeslot_refs doc) x = 1) (declared_timeslot_ids doc)
    \<and> tier_refs (TIERS doc ! 1) = tier_ids (TIERS doc ! 0)
    \<and> tier_refs (TIERS doc ! 2) = tier_ids (TIERS doc ! 0)
    \<and> tier_refs (TIERS doc ! 4) = tier_ids (TIERS doc ! 3)
    \<and> tier_refs (TIERS doc ! 6) = tier_ids (TIERS doc ! 5)
    \<and> list_all (\<lambda>x. count_list (annotation_refs doc) x = 2) (tier_ids (TIERS doc ! 0))
    \<and> list_all (\<lambda>x. count_list (annotation_refs doc) x = 1)
          (tier_ids (TIERS doc ! 3) @ tier_ids (TIERS doc ! 5))
    \<and> list_all (\<lambda>x. count_list (annotation_refs doc) x = 0)
          (tier_ids (TIERS doc ! 1) @ tier_ids (TIERS doc ! 2) @ tier_ids (TIERS doc ! 4)
           @ tier_ids (TIERS doc ! 6))"
proof -
  from assms obtain st where m: "merge anon us = Inr st"
    using merge_loop_total [of us anon merge_init] by (auto simp: merge_def)
  define doc where "doc = merged_document st"
  have e: "export_saymore anon us = Inr (doc, generate_audio ([], [], []) (annotations st))"
    using m by (simp add: export_saymore_def doc_def)
  note ids = merged_document_ids [OF m, folded doc_def]
  have r: "doc = render_eaf (annotation_id st + 1) (annotations st)"
    by (simp add: doc_def merged_document_def)
  note t = tier_structure_render [of "annotation_id st + 1" "annotations st", folded r]
  have "distinct (tier_ids (TIERS doc ! 0) @ tier_ids (TIERS doc ! 1) @ tier_ids (TIERS doc ! 2)
      @ tier_ids (TIERS doc ! 3) @ tier_ids (TIERS doc ! 4) @ tier_ids (TIERS doc ! 5)
      @ tier_ids (TIERS doc ! 6))"
    using ids(2) annotation_ids_by_tier [of "annotation_id st + 1" "annotations st", folded r]
    by simp
  note c = reference_counts [OF this, folded t(5)]
  from e ids t(1-4) c show ?thesis by blast
qed

theorem merged_document_identifiers_witness:
  "list_all mergeable example_utterances
   \<and> (\<exists>doc tracks. export_saymore True example_utterances = Inr (doc, tracks)
    \<and> distinct (declared_timeslot_ids doc)
    \<and> distinct (annotation_ids doc)
    \<and> mset (timeslot_refs doc) = mset (declared_timeslot_ids doc)
    \<and> list_all (\<lambda>x. count_list (timeslot_refs doc) x = 1) (declared_timeslot_ids doc)
    \<and> tier_refs (TIERS doc ! 1) = tier_ids (TIERS doc ! 0)
    \<and> tier_refs (TIERS doc ! 2) = tier_ids (TIERS doc ! 0)
    \<and> tier_refs (TIERS doc ! 4) = tier_ids (TIERS doc ! 3)
    \<and> tier_refs (TIERS doc ! 6) = tier_ids (TIERS doc ! 5)
    \<and> list_all (\<lambda>x. count_list (annotation_refs doc) x = 2) (tier_ids (TIERS doc ! 0))
    \<and> list_all (\<lambda>x. count_list (annotation_refs doc) x = 1)
          (tier_ids (TIERS doc ! 3) @ tier_ids (TIERS doc ! 5))
    \<and> list_all (\<lambda>x. count_list (annotation_refs doc) x = 0)
          (tier_ids (TIERS doc ! 1) @ tier_ids (TIERS doc ! 2) @ tier_ids (TIERS doc ! 4)
           @ tier_ids (TIERS doc ! 6)))"
  using merged_document_identifiers [OF example_utterances_mergeable, of True]
    example_utterances_mergeable
  by simp

text \<open>
  One utterance without oral annotations: its annotation \<^verbatim>\<open>a1\<close> is referenced by
  two children, and the children \<^verbatim>\<open>a3\<close> and \<^verbatim>\<open>a4\<close> by nothing, against the
  "referenced exactly once" of claim C7.
\<close>

definition single_utterance :: "utterance list" where
  "single_utterance =
     [\<lparr>src_start_ms = 0, src_end_ms = 2, src_text = ''hello'', trans_lookup = Some ''hi'',
       source_lookup = Some ''src'', src_clip = [1, 2], careful_wav = None,
       translation_wav = None\<rparr>]"

lemma merge_single_utterance:
  "merge False single_utterance =
     Inr \<lparr>annotations =
            [\<lparr>a_orig = ''hello'', a_rep = [], a_trans = ''hi'', a_source = ''src'',
              orig_anonymized = False, rep_anonymized = False, trans_anonymized = False,
              audio_orig = [1, 2],
              audio_orig_slot = \<lparr>ts1 = 0, ts1id = ''ts1'', ts2 = 2, ts2id = ''ts2'', aid = ''a1''\<rparr>,
              audio_rep = None, audio_trans = None\<rparr>],
          offset = 2, annotation_id = 2, timeslot_id = 3\<rparr>"
  by (simp add: single_utterance_def merge_def merge_init_def merge_utterance_def
      split_orig_rep_def place_def place_file_def ts_name_def a_name_def show_nat.simps
      digit_char_def)

theorem annotation_reference_counterexample:
  "map_sum id (\<lambda>(doc, tracks). (annotation_ids doc, annotation_refs doc))
     (export_saymore False single_utterance)
   = Inr ([''a1'', ''a3'', ''a4''], [''a1'', ''a1''])"
  by (simp add: export_saymore_def merge_single_utterance merged_document_def render_eaf_def
      annotation_ids_def annotation_refs_def tier_ids_def tier_refs_def alignable_tier_def
      alignable_def a_name_def show_nat.simps digit_char_def shown_def Let_def)

section \<open>Properties of the markup redactor\<close>

subsection \<open>What a match is\<close>

lemma match_lit_iff:
  "match_here (Lit l # ps) t \<noteq> None \<longleftrightarrow> prefix l t \<and> match_here ps (drop (length l) t) \<noteq> None"
  by simp

lemma match_lazy_iff:
  "match_here (LazyAny # ps) t \<noteq> None \<longleftrightarrow>
     (\<exists>u v. t = u @ v \<and> newline \<notin> set u \<and> match_here ps v \<noteq> None)"
proof (induction t)
  case Nil
  then show ?case by simp
next
  case (Cons c cs)
  show ?case
  proof
    assume a: "match_here (LazyAny # ps) (c # cs) \<noteq> None"
    show "\<exists>u v. c # cs = u @ v \<and> newline \<notin> set u \<and> match_here ps v \<noteq> None"
    proof (cases "match_here ps (c # cs)")
      case None
      with a have "c \<noteq> newline" "match_here (LazyAny # ps) cs \<noteq> None"
        by (auto split: if_splits)
      with Cons.IH obtain u v where "cs = u @ v" "newline \<notin> set u" "match_here ps v \<noteq> None"
        by blast
      with \<open>c \<noteq> newline\<close> have "c # cs = (c # u) @ v \<and> newline \<notin> set (c # u) \<and> match_here ps v \<noteq> None"
        by auto
      then show ?thesis by blast
    next
      case (Some r)
      then have "c # cs = [] @ (c # cs) \<and> newline \<notin> set [] \<and> match_here ps (c # cs) \<noteq> None"
        by simp
      then show ?thesis by blast
    qed
  next
    assume "\<exists>u v. c # cs = u @ v \<and> newline \<notin> set u \<and> match_here ps v \<noteq> None"
    then obtain u v where uv: "c # cs = u @ v" "newline \<notin> set u" "match_here ps v \<noteq> None"
      by blast
    show "match_here (LazyAny # ps) (c # cs) \<noteq> None"
    proof (cases u)
      case Nil
      with uv show ?thesis by (auto split: option.splits)
    next
      case (Cons d u')
      with uv have "cs = u' @ v" "newline \<notin> set u'" "c \<noteq> newline" by auto
      with uv(3) Cons.IH have "match_here (LazyAny # ps) cs \<noteq> None" by blast
      with \<open>c \<noteq> newline\<close> show ?thesis by (auto split: option.splits)
    qed
  qed
qed

text \<open>The text that a match consumes holds no line feed when the literals hold none.\<close>

definition nl_free :: "item list \<Rightarrow> bool" where
  "nl_free p = (\<forall>l. Lit l \<in> set p \<longrightarrow> newline \<notin> set l)"

lemma match_here_consumed:
  "match_here p s = Some r \<Longrightarrow> nl_free p \<Longrightarrow> \<exists>m. s = m @ r \<and> newline \<notin> set m"
proof (induction p s arbitrary: r rule: match_here.induct)
  case (1 s)
  then show ?case by simp
next
  case (2 l ps s)
  from "2.prems" have p: "prefix l s" and m: "match_here ps (drop (length l) s) = Some r"
    by (auto split: if_splits)
  from "2.prems"(2) have n: "nl_free ps" "newline \<notin> set l"
    by (auto simp: nl_free_def)
  from "2.IH" [OF p m n(1)] obtain m' where "drop (length l) s = m' @ r" "newline \<notin> set m'"
    by blast
  moreover from p have "s = l @ drop (length l) s"
    by (auto simp: prefix_def)
  ultimately have "s = (l @ m') @ r \<and> newline \<notin> set (l @ m')"
    using n(2) by auto
  then show ?case by blast
next
  case (3 ps)
  then show ?case by (auto simp: nl_free_def)
next
  case (4 ps c cs)
  from "4.prems"(2) have n: "nl_free ps" "nl_free (LazyAny # ps)"
    by (auto simp: nl_free_def)
  show ?case
  proof (cases "match_here ps (c # cs)")
    case None
    with "4.prems"(1) have c: "c \<noteq> newline" and m: "match_here (LazyAny # ps) cs = Some r"
      by (auto split: if_splits)
    from "4.IH"(2) [OF None c m n(2)] obtain m' where "cs = m' @ r" "newline \<notin> set m'"
      by blast
    with c have "c # cs = (c # m') @ r \<and> newline \<notin> set (c # m')" by auto
    then show ?thesis by blast
  next
    case (Some r')
    with "4.prems"(1) have "match_here ps (c # cs) = Some r" by simp
    from "4.IH"(1) [OF this n(1)] show ?thesis .
  qed
qed

subsection \<open>A replacement neither creates nor destroys the chance of a match\<close>

definition lits_avoid :: "item list \<Rightarrow> char set \<Rightarrow> bool" where
  "lits_avoid p R = (\<forall>l. Lit l \<in> set p \<longrightarrow> l \<noteq> [] \<and> set l \<inter> R = {})"

lemma prefix_before_avoided:
  assumes "prefix l (x @ r' @ y)" "l \<noteq> []" "set l \<inter> R = {}" "set r' \<subseteq> R" "r' \<noteq> []"
  shows "prefix l x"
proof (rule ccontr)
  assume "\<not> prefix l x"
  with assms(1) obtain us where us: "l = x @ us" "prefix us (r' @ y)" "us \<noteq> []"
    by (auto simp: prefix_append)
  from us(2,3) assms(5) have "hd us = hd r'"
    by (cases us; cases r') auto
  moreover have "hd us \<in> set us" "hd r' \<in> set r'"
    using us(3) assms(5) by simp_all
  ultimately have "hd r' \<in> set l" "hd r' \<in> set r'"
    using us(1) by simp_all
  with assms(3,4) show False by auto
qed

lemma match_transfer:
  assumes "lits_avoid p R" "set r' \<subseteq> R" "r' \<noteq> []" "newline \<notin> set m"
    and "match_here p (x @ r' @ y) \<noteq> None"
  shows "match_here p (x @ m @ y) \<noteq> None"
  using assms
proof (induction p arbitrary: x r' m)
  case Nil
  then show ?case by simp
next
  case (Cons i p)
  from Cons.prems(1) have av: "lits_avoid p R"
    by (auto simp: lits_avoid_def)
  show ?case
  proof (cases i)
    case (Lit l)
    with Cons.prems(1) have l: "l \<noteq> []" "set l \<inter> R = {}"
      by (auto simp: lits_avoid_def)
    from Cons.prems(5) Lit have p: "prefix l (x @ r' @ y)"
      and m: "match_here p (drop (length l) (x @ r' @ y)) \<noteq> None"
      by (auto split: if_splits)
    from prefix_before_avoided [OF p l Cons.prems(2,3)] obtain x' where x: "x = l @ x'"
      by (auto simp: prefix_def)
    with m have "match_here p (x' @ r' @ y) \<noteq> None" by simp
    from Cons.IH [OF av Cons.prems(2,3,4) this] show ?thesis
      using Lit x by simp
  next
    case LazyAny
    from Cons.prems(5) have "match_here (LazyAny # p) (x @ r' @ y) \<noteq> None"
      unfolding LazyAny .
    then obtain u v where uv: "x @ r' @ y = u @ v" "newline \<notin> set u"
      "match_here p v \<noteq> None"
      unfolding match_lazy_iff by blast
    from uv(1) have "\<exists>w. x = u @ w \<and> w @ r' @ y = v \<or> x @ w = u \<and> r' @ y = w @ v"
      by (simp only: append_eq_append_conv2)
    then consider (A) w where "x = u @ w" "v = w @ r' @ y"
      | (B) w where "u = x @ w" "r' @ y = w @ v"
      by blast
    then consider (A) w where "x = u @ w" "v = w @ r' @ y"
      | (B1) w w2 where "u = x @ w" "r' = w @ w2" "v = w2 @ y"
      | (B2) w2 where "u = x @ r' @ w2" "y = w2 @ v"
    proof cases
      case A
      then show ?thesis by (rule that(1))
    next
      case B
      from B(2) have "\<exists>w2. r' = w @ w2 \<and> w2 @ y = v \<or> r' @ w2 = w \<and> y = w2 @ v"
        by (simp only: append_eq_append_conv2)
      then consider w2 where "r' = w @ w2" "v = w2 @ y" | w2 where "w = r' @ w2" "y = w2 @ v"
        by blast
      then show ?thesis
      proof cases
        case 1
        with B(1) show ?thesis by (rule that(2))
      next
        case 2
        with B(1) have "u = x @ r' @ w2" by simp
        then show ?thesis using 2(2) by (rule that(3))
      qed
    qed
    then have "\<exists>u' v'. x @ m @ y = u' @ v' \<and> newline \<notin> set u' \<and> match_here p v' \<noteq> None"
    proof cases
      case A
      with uv(3) have "match_here p (w @ r' @ y) \<noteq> None" by simp
      from Cons.IH [OF av Cons.prems(2,3,4) this] have "match_here p (w @ m @ y) \<noteq> None" .
      with A uv(2) have "x @ m @ y = u @ (w @ m @ y) \<and> newline \<notin> set u
          \<and> match_here p (w @ m @ y) \<noteq> None"
        by simp
      then show ?thesis by blast
    next
      case B1
      have "match_here p y \<noteq> None"
      proof (cases "w2 = []")
        case True
        with B1 uv(3) show ?thesis by simp
      next
        case False
        from B1 Cons.prems(2) have s2: "set w2 \<subseteq> R" by auto
        have e: "newline \<notin> set ([] :: string)" by simp
        from B1 uv(3) have "match_here p ([] @ w2 @ y) \<noteq> None" by simp
        from Cons.IH [OF av s2 False e this] show ?thesis by simp
      qed
      with B1 uv(2) Cons.prems(4)
      have "x @ m @ y = (x @ m) @ y \<and> newline \<notin> set (x @ m) \<and> match_here p y \<noteq> None"
        by simp
      then show ?thesis by blast
    next
      case B2
      with uv(2,3) Cons.prems(4)
      have "x @ m @ y = (x @ m @ w2) @ v \<and> newline \<notin> set (x @ m @ w2) \<and> match_here p v \<noteq> None"
        by simp
      then show ?thesis by blast
    qed
    then show ?thesis
      using LazyAny by (simp only: match_lazy_iff)
  qed
qed

subsection \<open>Substitution with a pattern that starts with a literal\<close>

definition headed :: "item list \<Rightarrow> bool" where
  "headed p = (\<exists>c l ps. p = Lit (c # l) # ps)"

lemma headed_no_empty: "headed p \<Longrightarrow> match_here p [] = None"
  by (auto simp: headed_def)

lemma headed_shrinks:
  assumes "headed p" "match_here p s = Some r"
  shows "length r < length s"
proof -
  from assms(1) obtain c l ps where p: "p = Lit (c # l) # ps"
    by (auto simp: headed_def)
  with assms(2) have pr: "prefix (c # l) s" and m: "match_here ps (drop (length (c # l)) s) = Some r"
    by (auto split: if_splits)
  from pr have "length (c # l) \<le> length s"
    by (rule prefix_length_le)
  with match_here_length [OF m] show ?thesis by simp
qed

lemma sub_re_Nil: "headed p \<Longrightarrow> sub_re p r [] = []"
  by (subst sub_re.simps) (simp add: headed_no_empty)

lemma sub_re_hit:
  "headed p \<Longrightarrow> match_here p s = Some rest \<Longrightarrow> sub_re p r s = r @ sub_re p r rest"
  by (subst sub_re.simps) (simp add: headed_shrinks)

lemma sub_re_miss:
  "match_here p (c # cs) = None \<Longrightarrow> sub_re p r (c # cs) = c # sub_re p r cs"
  by (subst sub_re.simps) simp

lemma match_after_sub:
  assumes "lits_avoid p (set r)" "r \<noteq> []" "nl_free q" "headed q"
    and "match_here p (pre @ sub_re q r s) \<noteq> None"
  shows "match_here p (pre @ s) \<noteq> None"
  using assms(5)
proof (induction s arbitrary: pre rule: length_induct)
  case (1 s)
  show ?case
  proof (cases "match_here q s")
    case None
    show ?thesis
    proof (cases s)
      case Nil
      with "1.prems" assms(4) show ?thesis by (simp add: sub_re_Nil)
    next
      case (Cons c cs)
      with None "1.prems" have "match_here p ((pre @ [c]) @ sub_re q r cs) \<noteq> None"
        by (simp add: sub_re_miss)
      moreover have "length cs < length s" using Cons by simp
      ultimately have "match_here p ((pre @ [c]) @ cs) \<noteq> None"
        using "1.IH" by blast
      with Cons show ?thesis by simp
    qed
  next
    case (Some rest)
    from match_here_consumed [OF Some assms(3)] obtain m where m: "s = m @ rest" "newline \<notin> set m"
      by blast
    from Some "1.prems" assms(4) have "match_here p ((pre @ r) @ sub_re q r rest) \<noteq> None"
      by (simp add: sub_re_hit)
    moreover have "length rest < length s"
      using assms(4) Some by (rule headed_shrinks)
    ultimately have "match_here p ((pre @ r) @ rest) \<noteq> None"
      using "1.IH" by blast
    then have "match_here p (pre @ r @ rest) \<noteq> None" by simp
    from match_transfer [OF assms(1) subset_refl assms(2) m(2) this] show ?thesis
      using m(1) by simp
  qed
qed

text \<open>No position of the string starts a match.\<close>

fun unmatched :: "item list \<Rightarrow> string \<Rightarrow> bool" where
  "unmatched p [] = (match_here p [] = None)"
| "unmatched p (c # cs) = (match_here p (c # cs) = None \<and> unmatched p cs)"

lemma unmatched_head: "unmatched p s \<Longrightarrow> match_here p s = None"
  by (cases s) simp_all

lemma unmatched_append: "unmatched p (a @ b) \<Longrightarrow> unmatched p b"
  by (induction a) simp_all

lemma sub_re_unmatched: "unmatched p s \<Longrightarrow> sub_re p r s = s"
proof (induction s)
  case Nil
  then show ?case by (subst sub_re.simps) simp
next
  case (Cons c cs)
  then show ?case by (simp add: sub_re_miss)
qed

lemma unmatched_prepend:
  assumes "unmatched p t" "\<And>a b. r = a @ b \<Longrightarrow> b \<noteq> [] \<Longrightarrow> match_here p (b @ t) = None"
  shows "unmatched p (r @ t)"
  using assms(2)
proof (induction r)
  case Nil
  then show ?case using assms(1) by simp
next
  case (Cons c r)
  have "match_here p ((c # r) @ t) = None"
    using Cons.prems [of "[]" "c # r"] by simp
  moreover have "unmatched p (r @ t)"
  proof (rule Cons.IH)
    fix a b assume "r = a @ b" "b \<noteq> []"
    then show "match_here p (b @ t) = None"
      using Cons.prems [of "c # a" b] by simp
  qed
  ultimately show ?case by simp
qed

lemma unmatched_preserved:
  assumes "lits_avoid p (set r)" "r \<noteq> []" "nl_free q" "headed q" "unmatched p s"
  shows "unmatched p (sub_re q r s)"
  using assms(5)
proof (induction s rule: length_induct)
  case (1 s)
  show ?case
  proof (cases "match_here q s")
    case None
    show ?thesis
    proof (cases s)
      case Nil
      with "1.prems" assms(4) show ?thesis by (simp add: sub_re_Nil)
    next
      case (Cons c cs)
      have "match_here p (c # sub_re q r cs) = None"
      proof (rule ccontr)
        assume "match_here p (c # sub_re q r cs) \<noteq> None"
        then have "match_here p ([c] @ sub_re q r cs) \<noteq> None" by simp
        from match_after_sub [OF assms(1-4) this] show False
          using "1.prems" Cons by simp
      qed
      moreover have "unmatched p (sub_re q r cs)"
        using "1.IH" "1.prems" Cons by simp
      ultimately show ?thesis
        using None Cons by (simp add: sub_re_miss)
    qed
  next
    case (Some rest)
    from match_here_consumed [OF Some assms(3)] obtain m where m: "s = m @ rest" "newline \<notin> set m"
      by blast
    have l: "length rest < length s"
      using assms(4) Some by (rule headed_shrinks)
    from "1.prems" m(1) have u: "unmatched p rest"
      using unmatched_append by blast
    with "1.IH" l have ur: "unmatched p (sub_re q r rest)" by blast
    have "unmatched p (r @ sub_re q r rest)"
      using ur
    proof (rule unmatched_prepend)
      fix a b assume ab: "r = a @ b" "b \<noteq> []"
      show "match_here p (b @ sub_re q r rest) = None"
      proof (rule ccontr)
        assume "match_here p (b @ sub_re q r rest) \<noteq> None"
        from match_after_sub [OF assms(1-4) this]
        have "match_here p ([] @ b @ rest) \<noteq> None" by simp
        moreover have "set b \<subseteq> set r" using ab by auto
        ultimately have "match_here p ([] @ m @ rest) \<noteq> None"
          using match_transfer [OF assms(1) _ ab(2) m(2)] by blast
        with "1.prems" m(1) show False
          by (simp add: unmatched_head)
      qed
    qed
    then show ?thesis
      using Some assms(4) by (simp add: sub_re_hit)
  qed
qed

lemma unmatched_after_sub:
  assumes "lits_avoid q (set r)" "r \<noteq> []" "nl_free q" "headed q"
  shows "unmatched q (sub_re q r s)"
proof (induction s rule: length_induct)
  case (1 s)
  show ?case
  proof (cases "match_here q s")
    case None
    show ?thesis
    proof (cases s)
      case Nil
      with assms(4) show ?thesis by (simp add: sub_re_Nil headed_no_empty)
    next
      case (Cons c cs)
      have "match_here q (c # sub_re q r cs) = None"
      proof (rule ccontr)
        assume "match_here q (c # sub_re q r cs) \<noteq> None"
        then have "match_here q ([c] @ sub_re q r cs) \<noteq> None" by simp
        from match_after_sub [OF assms(1-4) this] show False
          using None Cons by simp
      qed
      moreover have "unmatched q (sub_re q r cs)"
        using "1.IH" Cons by simp
      ultimately show ?thesis
        using None Cons by (simp add: sub_re_miss)
    qed
  next
    case (Some rest)
    have l: "length rest < length s"
      using assms(4) Some by (rule headed_shrinks)
    with "1.IH" have ur: "unmatched q (sub_re q r rest)" by blast
    from assms(4) obtain c l ps where q: "q = Lit (c # l) # ps"
      by (auto simp: headed_def)
    with assms(1) have c: "c \<notin> set r"
      by (auto simp: lits_avoid_def)
    have "unmatched q (r @ sub_re q r rest)"
      using ur
    proof (rule unmatched_prepend)
      fix a b assume ab: "r = a @ b" "b \<noteq> []"
      then obtain d b' where "b = d # b'" "d \<in> set r"
        by (cases b) auto
      with c show "match_here q (b @ sub_re q r rest) = None"
        by (auto simp: q)
    qed
    then show ?thesis
      using Some assms(4) by (simp add: sub_re_hit)
  qed
qed

subsection \<open>The four patterns of the redactor\<close>

lemma patterns_headed:
  "headed name_anon_re" "headed name_tag_re" "headed any_anon_re" "headed sensitive_tag_re"
  by (simp_all add: headed_def name_anon_re_def name_tag_re_def any_anon_re_def
      sensitive_tag_re_def)

lemma patterns_nl_free:
  "nl_free name_anon_re" "nl_free name_tag_re" "nl_free any_anon_re" "nl_free sensitive_tag_re"
  by (auto simp: nl_free_def newline_def name_anon_re_def name_tag_re_def any_anon_re_def
      sensitive_tag_re_def)

lemma patterns_avoid_NAME:
  "lits_avoid name_anon_re (set ''(NAME)'')" "lits_avoid name_tag_re (set ''(NAME)'')"
  "lits_avoid any_anon_re (set ''(NAME)'')" "lits_avoid sensitive_tag_re (set ''(NAME)'')"
  by (auto simp: lits_avoid_def name_anon_re_def name_tag_re_def any_anon_re_def
      sensitive_tag_re_def)

lemma patterns_avoid_SENSITIVE:
  "lits_avoid name_anon_re (set ''(SENSITIVE)'')" "lits_avoid name_tag_re (set ''(SENSITIVE)'')"
  "lits_avoid any_anon_re (set ''(SENSITIVE)'')" "lits_avoid sensitive_tag_re (set ''(SENSITIVE)'')"
  by (auto simp: lits_avoid_def name_anon_re_def name_tag_re_def any_anon_re_def
      sensitive_tag_re_def)

lemma anonymize_text_unmatched:
  "unmatched name_anon_re (anonymize_text s)" "unmatched name_tag_re (anonymize_text s)"
  "unmatched any_anon_re (anonymize_text s)" "unmatched sensitive_tag_re (anonymize_text s)"
proof -
  define s1 where "s1 = sub_re name_anon_re ''(NAME)'' s"
  define s2 where "s2 = sub_re name_tag_re ''(NAME)'' s1"
  define s3 where "s3 = sub_re any_anon_re ''(SENSITIVE)'' s2"
  define s4 where "s4 = sub_re sensitive_tag_re ''(SENSITIVE)'' s3"
  have e: "anonymize_text s = s4"
    by (simp add: anonymize_text_def s1_def s2_def s3_def s4_def)
  have n: "''(NAME)'' \<noteq> []" "''(SENSITIVE)'' \<noteq> []" by simp_all
  have a1: "unmatched name_anon_re s1"
    unfolding s1_def
    by (rule unmatched_after_sub [OF patterns_avoid_NAME(1) n(1) patterns_nl_free(1) patterns_headed(1)])
  have a2: "unmatched name_anon_re s2"
    unfolding s2_def
    by (rule unmatched_preserved [OF patterns_avoid_NAME(1) n(1) patterns_nl_free(2) patterns_headed(2) a1])
  have a3: "unmatched name_anon_re s3"
    unfolding s3_def
    by (rule unmatched_preserved [OF patterns_avoid_SENSITIVE(1) n(2) patterns_nl_free(3) patterns_headed(3) a2])
  have b2: "unmatched name_tag_re s2"
    unfolding s2_def
    by (rule unmatched_after_sub [OF patterns_avoid_NAME(2) n(1) patterns_nl_free(2) patterns_headed(2)])
  have b3: "unmatched name_tag_re s3"
    unfolding s3_def
    by (rule unmatched_preserved [OF patterns_avoid_SENSITIVE(2) n(2) patterns_nl_free(3) patterns_headed(3) b2])
  have c3: "unmatched any_anon_re s3"
    unfolding s3_def
    by (rule unmatched_after_sub [OF patterns_avoid_SENSITIVE(3) n(2) patterns_nl_free(3) patterns_headed(3)])
  show "unmatched name_anon_re (anonymize_text s)"
    unfolding e s4_def
    by (rule unmatched_preserved [OF patterns_avoid_SENSITIVE(1) n(2) patterns_nl_free(4) patterns_headed(4) a3])
  show "unmatched name_tag_re (anonymize_text s)"
    unfolding e s4_def
    by (rule unmatched_preserved [OF patterns_avoid_SENSITIVE(2) n(2) patterns_nl_free(4) patterns_headed(4) b3])
  show "unmatched any_anon_re (anonymize_text s)"
    unfolding e s4_def
    by (rule unmatched_preserved [OF patterns_avoid_SENSITIVE(3) n(2) patterns_nl_free(4) patterns_headed(4) c3])
  show "unmatched sensitive_tag_re (anonymize_text s)"
    unfolding e s4_def
    by (rule unmatched_after_sub [OF patterns_avoid_SENSITIVE(4) n(2) patterns_nl_free(4) patterns_headed(4)])
qed

lemma anonymize_text_fixed:
  assumes "unmatched name_anon_re s" "unmatched name_tag_re s" "unmatched any_anon_re s"
    "unmatched sensitive_tag_re s"
  shows "anonymize_text s = s"
  using assms by (simp add: anonymize_text_def sub_re_unmatched)

text \<open>
  Claim C5.  Redacting a redacted string returns it unchanged, and \<^verbatim>\<open>anonymize\<close>
  then reports that nothing was replaced.
\<close>

theorem anonymize_text_idempotent:
  "anonymize_text (anonymize_text s) = anonymize_text s
   \<and> anonymize (anonymize_text s) = (anonymize_text s, False)"
proof -
  have "anonymize_text (anonymize_text s) = anonymize_text s"
    by (rule anonymize_text_fixed) (rule anonymize_text_unmatched)+
  then show ?thesis by (simp add: anonymize_def)
qed

subsection \<open>The pre-check\<close>

lemma match_needs_precheck:
  assumes "p \<in> {name_anon_re, name_tag_re, any_anon_re, sensitive_tag_re}"
    and "match_here p t \<noteq> None"
  shows "precheck_here t"
proof -
  from assms have "prefix ''[anon'' t \<or> prefix ''[name'' t \<or> prefix ''[sensitive'' t"
    by (auto simp: name_anon_re_def name_tag_re_def any_anon_re_def sensitive_tag_re_def
        prefix_def split: if_splits)
  then show ?thesis
    by (auto simp: precheck_here_def prefix_def)
qed

lemma precheck_unmatched:
  assumes "p \<in> {name_anon_re, name_tag_re, any_anon_re, sensitive_tag_re}"
    and "\<not> anonymous_text_re_search s"
  shows "unmatched p s"
  using assms(2)
proof (induction s)
  case Nil
  from assms(1) show ?case
    using patterns_headed by (auto simp: headed_no_empty)
next
  case (Cons c cs)
  then have n: "\<not> precheck_here (c # cs)" and u: "unmatched p cs" by simp_all
  have "match_here p (c # cs) = None"
  proof (rule ccontr)
    assume "match_here p (c # cs) \<noteq> None"
    from match_needs_precheck [OF assms(1) this] n show False by blast
  qed
  with u show ?case by simp
qed

lemma precheck_sound:
  "\<not> anonymous_text_re_search s \<Longrightarrow> anonymize_text s = s"
  by (rule anonymize_text_fixed) (simp_all add: precheck_unmatched)

subsection \<open>A tagged span in plain surroundings\<close>
















subsection \<open>The name rule comes first\<close>















section \<open>The annotation store\<close>

text \<open>
  The transcript object that the source reads and changes, as far as the source
  touches it.  \<^verbatim>\<open>transcript.timeslots\<close> maps timeslot identifiers to milliseconds;
  \<^verbatim>\<open>transcript.tiers[name]\<close> is a tuple whose component 0 maps the identifiers of the
  aligned annotations to \<^verbatim>\<open>(start_ts, end_ts, value, svg_ref)\<close>, whose component 1
  maps the identifiers of the reference annotations to
  \<^verbatim>\<open>(parent_id, value, previous, svg_ref)\<close>, and whose component 2 holds the tier's
  attributes.  Dictionaries keep the order of insertion, which is the order of
  \<^verbatim>\<open>.items()\<close>: they are association lists, read with \<open>map_of\<close>.
\<close>

type_synonym aligned_annotation = "string \<times> string \<times> string \<times> string option"

type_synonym ref_annotation = "string \<times> string \<times> string option \<times> string option"

record tier_data =
  aligned :: "(string \<times> aligned_annotation) list"
  reference :: "(string \<times> ref_annotation) list"
  attributes :: "(string \<times> string) list"

record transcript =
  timeslots :: "(string \<times> int) list"
  tiers :: "(string \<times> tier_data) list"

text \<open>\<^verbatim>\<open>d[k]\<close>, which raises \<^verbatim>\<open>KeyError\<close> for a key that is not there.\<close>

definition lookup :: "('k \<times> 'v) list \<Rightarrow> 'k \<Rightarrow> py_error + 'v" where
  "lookup d k = (case map_of d k of None \<Rightarrow> Inl KeyError | Some v \<Rightarrow> Inr v)"

text \<open>
  \<^verbatim>\<open>transcript.timeslots[start_ts] == start_ms and transcript.timeslots[end_ts] == end_ms\<close>:
  the second subscript is evaluated only when the first comparison holds.
\<close>

definition span_is :: "(string \<times> int) list \<Rightarrow> string \<Rightarrow> string \<Rightarrow> int \<Rightarrow> int \<Rightarrow> py_error + bool" where
  "span_is ts start_ts end_ts start_ms end_ms =
     (case lookup ts start_ts of
        Inl e \<Rightarrow> Inl e
      | Inr t1 \<Rightarrow>
          if t1 = start_ms then
            (case lookup ts end_ts of Inl e \<Rightarrow> Inl e | Inr t2 \<Rightarrow> Inr (t2 = end_ms))
          else Inr False)"

text \<open>
  The loop of both setters: walk the items of a dictionary, and at the first item for
  which the test holds store the changed item under its key and \<^verbatim>\<open>break\<close>.  A test
  that raises ends the walk with the exception; the dictionary has not been changed
  then.
\<close>

fun set_first :: "('a \<Rightarrow> py_error + bool) \<Rightarrow> ('a \<Rightarrow> 'a) \<Rightarrow> ('k \<times> 'a) list \<Rightarrow>
    py_error + ('k \<times> 'a) list" where
  "set_first hit put [] = Inr []"
| "set_first hit put ((k, a) # items) =
     (case hit a of
        Inl e \<Rightarrow> Inl e
      | Inr True \<Rightarrow> Inr ((k, put a) # items)
      | Inr False \<Rightarrow>
          (case set_first hit put items of
             Inl e \<Rightarrow> Inl e
           | Inr items' \<Rightarrow> Inr ((k, a) # items')))"

definition set_aligned_annotation ::
    "transcript \<Rightarrow> string \<Rightarrow> int \<Rightarrow> int \<Rightarrow> string \<Rightarrow> py_error + transcript" where
  "set_aligned_annotation tr tier start_ms end_ms new_value =
     (case lookup (tiers tr) tier of
        Inl e \<Rightarrow> Inl e
      | Inr td \<Rightarrow>
          (case set_first
                  (\<lambda>(start_ts, end_ts, value, refvalue).
                      span_is (timeslots tr) start_ts end_ts start_ms end_ms)
                  (\<lambda>(start_ts, end_ts, value, refvalue). (start_ts, end_ts, new_value, refvalue))
                  (aligned td) of
             Inl e \<Rightarrow> Inl e
           | Inr d \<Rightarrow> Inr (tr\<lparr>tiers := AList.update tier (td\<lparr>aligned := d\<rparr>) (tiers tr)\<rparr>)))"

text \<open>
  In \<^verbatim>\<open>set_ref_annotation\<close> the parent annotation is read from component 0 of the
  parent tier, the aligned annotations ("in this case, time-aligned", as the comment in
  the source says): a parent that is itself a reference annotation is a \<^verbatim>\<open>KeyError\<close>.
\<close>

definition parent_span_is ::
    "transcript \<Rightarrow> string \<Rightarrow> string \<Rightarrow> int \<Rightarrow> int \<Rightarrow> py_error + bool" where
  "parent_span_is tr parent_tier parent_ann_id start_ms end_ms =
     (case lookup (tiers tr) parent_tier of
        Inl e \<Rightarrow> Inl e
      | Inr pd \<Rightarrow>
          (case lookup (aligned pd) parent_ann_id of
             Inl e \<Rightarrow> Inl e
           | Inr (parent_start_ts, parent_end_ts, parent_ann_value, parent_refvalue) \<Rightarrow>
               span_is (timeslots tr) parent_start_ts parent_end_ts start_ms end_ms))"

definition set_ref_annotation ::
    "transcript \<Rightarrow> string \<Rightarrow> int \<Rightarrow> int \<Rightarrow> string \<Rightarrow> py_error + transcript" where
  "set_ref_annotation tr tier start_ms end_ms new_value =
     (case lookup (tiers tr) tier of
        Inl e \<Rightarrow> Inl e
      | Inr td \<Rightarrow>
          (case lookup (attributes td) ''PARENT_REF'' of
             Inl e \<Rightarrow> Inl e
           | Inr parent_tier \<Rightarrow>
               (case set_first
                       (\<lambda>(parent_ann_id, ref_ann_value, ref_ann_prev, ref_ann_svg).
                           parent_span_is tr parent_tier parent_ann_id start_ms end_ms)
                       (\<lambda>(parent_ann_id, ref_ann_value, ref_ann_prev, ref_ann_svg).
                           (parent_ann_id, new_value, ref_ann_prev, ref_ann_svg))
                       (reference td) of
                  Inl e \<Rightarrow> Inl e
                | Inr d \<Rightarrow>
                    Inr (tr\<lparr>tiers := AList.update tier (td\<lparr>reference := d\<rparr>) (tiers tr)\<rparr>))))"

subsection \<open>The redaction loop\<close>

text \<open>
  Modelled from the spec: \<^verbatim>\<open>transcript.get_annotation_data_for_tier(tier)\<close> belongs to
  the library that holds the transcript, not to this repository.  The specification
  describes it as \<^verbatim>\<open>annotations_of(tier)\<close>: the ordered sequence of
  \<^verbatim>\<open>(start_ms, end_ms, value)\<close> of an aligned tier, read directly, or for a referential
  tier the sequence of \<^verbatim>\<open>(start_ms, end_ms, value, parent_value)\<close>, each annotation's
  value with the resolved span of its parent.  The fourth component is \<open>None\<close> for the
  tuples of length three.
\<close>

type_synonym annotation_tuple = "int \<times> int \<times> string \<times> string option"

fun collect :: "('a \<Rightarrow> py_error + 'b) \<Rightarrow> 'a list \<Rightarrow> py_error + 'b list" where
  "collect f [] = Inr []"
| "collect f (x # xs) =
     (case f x of
        Inl e \<Rightarrow> Inl e
      | Inr y \<Rightarrow> (case collect f xs of Inl e \<Rightarrow> Inl e | Inr ys \<Rightarrow> Inr (y # ys)))"

definition aligned_tuple :: "transcript \<Rightarrow> string \<times> aligned_annotation \<Rightarrow> py_error + annotation_tuple" where
  "aligned_tuple tr item =
     (case item of (ann_id, start_ts, end_ts, value, svg) \<Rightarrow>
        (case lookup (timeslots tr) start_ts of
           Inl e \<Rightarrow> Inl e
         | Inr t1 \<Rightarrow>
             (case lookup (timeslots tr) end_ts of
                Inl e \<Rightarrow> Inl e
              | Inr t2 \<Rightarrow> Inr (t1, t2, value, None))))"

definition ref_tuple :: "transcript \<Rightarrow> string \<Rightarrow> string \<times> ref_annotation \<Rightarrow> py_error + annotation_tuple" where
  "ref_tuple tr parent_tier item =
     (case item of (ref_ann_id, parent_ann_id, value, prev, svg) \<Rightarrow>
        (case lookup (tiers tr) parent_tier of
           Inl e \<Rightarrow> Inl e
         | Inr pd \<Rightarrow>
             (case lookup (aligned pd) parent_ann_id of
                Inl e \<Rightarrow> Inl e
              | Inr (parent_start_ts, parent_end_ts, parent_value, parent_svg) \<Rightarrow>
                  (case lookup (timeslots tr) parent_start_ts of
                     Inl e \<Rightarrow> Inl e
                   | Inr t1 \<Rightarrow>
                       (case lookup (timeslots tr) parent_end_ts of
                          Inl e \<Rightarrow> Inl e
                        | Inr t2 \<Rightarrow> Inr (t1, t2, value, Some parent_value))))))"

definition annotations_of :: "transcript \<Rightarrow> string \<Rightarrow> py_error + annotation_tuple list" where
  "annotations_of tr tier =
     (case lookup (tiers tr) tier of
        Inl e \<Rightarrow> Inl e
      | Inr td \<Rightarrow>
          if reference td = [] then collect (aligned_tuple tr) (aligned td)
          else
            (case lookup (attributes td) ''PARENT_REF'' of
               Inl e \<Rightarrow> Inl e
             | Inr parent_tier \<Rightarrow> collect (ref_tuple tr parent_tier) (reference td)))"

text \<open>
  \<^verbatim>\<open>set_annotation\<close>: the setter for reference annotations when the list is not empty
  and its first tuple has more than three components.
\<close>

definition set_annotation_for ::
    "annotation_tuple list \<Rightarrow> transcript \<Rightarrow> string \<Rightarrow> int \<Rightarrow> int \<Rightarrow> string \<Rightarrow> py_error + transcript" where
  "set_annotation_for anns =
     (case anns of
        (_, _, _, Some _) # _ \<Rightarrow> set_ref_annotation
      | _ \<Rightarrow> set_aligned_annotation)"

text \<open>
  The inner loop of the script over the annotations of one tier.  The first argument is
  the test that guards the setter: \<^verbatim>\<open>anonymous_text_re.search\<close> in the source.
\<close>

fun redact_annotations ::
    "(string \<Rightarrow> bool) \<Rightarrow>
     (transcript \<Rightarrow> string \<Rightarrow> int \<Rightarrow> int \<Rightarrow> string \<Rightarrow> py_error + transcript) \<Rightarrow>
     string \<Rightarrow> transcript \<Rightarrow> annotation_tuple list \<Rightarrow> py_error + transcript" where
  "redact_annotations test set_annotation tier tr [] = Inr tr"
| "redact_annotations test set_annotation tier tr ((start_ms, end_ms, value, refvalue) # rest) =
     (if test value then
        (case set_annotation tr tier start_ms end_ms (anonymize_text value) of
           Inl e \<Rightarrow> Inl e
         | Inr tr' \<Rightarrow> redact_annotations test set_annotation tier tr' rest)
      else redact_annotations test set_annotation tier tr rest)"

definition redact_tier :: "(string \<Rightarrow> bool) \<Rightarrow> transcript \<Rightarrow> string \<Rightarrow> py_error + transcript" where
  "redact_tier test tr tier =
     (case annotations_of tr tier of
        Inl e \<Rightarrow> Inl e
      | Inr anns \<Rightarrow> redact_annotations test (set_annotation_for anns) tier tr anns)"

fun redact_tiers :: "(string \<Rightarrow> bool) \<Rightarrow> transcript \<Rightarrow> string list \<Rightarrow> py_error + transcript" where
  "redact_tiers test tr [] = Inr tr"
| "redact_tiers test tr (tier # rest) =
     (case redact_tier test tr tier of
        Inl e \<Rightarrow> Inl e
      | Inr tr' \<Rightarrow> redact_tiers test tr' rest)"

text \<open>
  \<^verbatim>\<open>for tier in transcript.tiers: ...\<close> with the pre-check of the source, and the same
  loop with the redactor applied to every value.
\<close>

definition redact_transcript :: "transcript \<Rightarrow> py_error + transcript" where
  "redact_transcript tr = redact_tiers anonymous_text_re_search tr (map fst (tiers tr))"

definition redact_transcript_unconditionally :: "transcript \<Rightarrow> py_error + transcript" where
  "redact_transcript_unconditionally tr = redact_tiers (\<lambda>value. True) tr (map fst (tiers tr))"

section \<open>Properties of the annotation store\<close>

text \<open>
  The effective span of an annotation: the milliseconds of its own timeslots for an
  aligned annotation, those of its parent in the parent tier for a reference
  annotation.  A component is \<open>None\<close> where the source would raise \<^verbatim>\<open>KeyError\<close>.
\<close>

definition aligned_span :: "(string \<times> int) list \<Rightarrow> aligned_annotation \<Rightarrow> int option \<times> int option" where
  "aligned_span ts a = (case a of (start_ts, end_ts, _, _) \<Rightarrow> (map_of ts start_ts, map_of ts end_ts))"

definition ref_span :: "transcript \<Rightarrow> string \<Rightarrow> ref_annotation \<Rightarrow> int option \<times> int option" where
  "ref_span tr parent_tier r =
     (case r of (parent_ann_id, _, _, _) \<Rightarrow>
        (case map_of (tiers tr) parent_tier of
           None \<Rightarrow> (None, None)
         | Some pd \<Rightarrow>
             (case map_of (aligned pd) parent_ann_id of
                None \<Rightarrow> (None, None)
              | Some a \<Rightarrow> aligned_span (timeslots tr) a)))"




text \<open>
  What the specification asks of \<^verbatim>\<open>set_value\<close>, on one dictionary: the first item that
  satisfies the test is replaced, in place.
\<close>

fun replace_first :: "('a \<Rightarrow> bool) \<Rightarrow> ('a \<Rightarrow> 'a) \<Rightarrow> ('k \<times> 'a) list \<Rightarrow> ('k \<times> 'a) list" where
  "replace_first P put [] = []"
| "replace_first P put ((k, a) # d) =
     (if P a then (k, put a) # d else (k, a) # replace_first P put d)"

definition with_aligned_value :: "string \<Rightarrow> aligned_annotation \<Rightarrow> aligned_annotation" where
  "with_aligned_value v a = (case a of (start_ts, end_ts, _, svg) \<Rightarrow> (start_ts, end_ts, v, svg))"

definition with_ref_value :: "string \<Rightarrow> ref_annotation \<Rightarrow> ref_annotation" where
  "with_ref_value v r = (case r of (parent_ann_id, _, prev, svg) \<Rightarrow> (parent_ann_id, v, prev, svg))"

text \<open>The store without the values of its annotations.\<close>

definition strip_aligned :: "aligned_annotation \<Rightarrow> string \<times> string \<times> string option" where
  "strip_aligned a = (case a of (start_ts, end_ts, _, svg) \<Rightarrow> (start_ts, end_ts, svg))"

definition strip_ref :: "ref_annotation \<Rightarrow> string \<times> string option \<times> string option" where
  "strip_ref r = (case r of (parent_ann_id, _, prev, svg) \<Rightarrow> (parent_ann_id, prev, svg))"





lemma replace_first_same:
  "list_all (\<lambda>(k, a). P a \<longrightarrow> put a = a) d \<Longrightarrow> replace_first P put d = d"
  by (induction d) auto

lemma replace_first_map:
  assumes "\<And>k a. f (k, put a) = f (k, a)"
  shows "map f (replace_first P put d) = map f d"
  by (induction d) (auto simp: assms)






lemma strip_with_value [simp]:
  "strip_aligned (with_aligned_value v a) = strip_aligned a"
  "strip_ref (with_ref_value v r) = strip_ref r"
  by (auto simp: strip_aligned_def with_aligned_value_def strip_ref_def with_ref_value_def
      split: prod.splits)

lemma span_with_value [simp]:
  "aligned_span ts (with_aligned_value v a) = aligned_span ts a"
  by (auto simp: aligned_span_def with_aligned_value_def split: prod.splits)

lemma ref_span_with_value [simp]:
  "ref_span tr p (with_ref_value v r) = ref_span tr p r"
  by (auto simp: ref_span_def with_ref_value_def split: prod.splits)













end
